theory Spec2Isabelle
  imports Main "HOL-Library.Word"
begin

unbundle bit_operations_syntax

section \<open>Machine types\<close>

text \<open>
  The C types of the sources: \<open>int\<close> is a 32-bit two's complement word (read with
  \<open>sint\<close>, compared with \<open>\<le>s\<close> and \<open><s\<close>), \<open>size_t\<close> and \<open>uint64_t\<close> are 64-bit
  unsigned words.
\<close>

type_synonym cint = "32 word"
type_synonym u64 = "64 word"

section \<open>Move encoding (Board.h)\<close>

definition boardBits :: nat where
  "boardBits = 6"

definition move :: "cint \<Rightarrow> cint \<Rightarrow> cint" where
  "move from to = push_bit boardBits from OR to"

definition specialMoveFlag :: cint where
  "specialMoveFlag = push_bit (2 * boardBits) 1"

definition promotionBits :: nat where
  "promotionBits = 2 * boardBits + 1"

definition queenPromotionFlags :: cint where
  "queenPromotionFlags = push_bit promotionBits 0"

definition rookPromotionFlags :: cint where
  "rookPromotionFlags = push_bit promotionBits 1"

definition bishopPromotionFlags :: cint where
  "bishopPromotionFlags = push_bit promotionBits 2"

definition knightPromotionFlags :: cint where
  "knightPromotionFlags = push_bit promotionBits 3"

definition specialMove :: "cint \<Rightarrow> cint \<Rightarrow> cint" where
  "specialMove from to = specialMoveFlag OR move from to"

text \<open>The macro \<open>from(move)\<close>; the right shift of an \<open>int\<close> is arithmetic.\<close>

definition "from" :: "cint \<Rightarrow> cint" where
  "from m = signed_drop_bit boardBits m AND NOT (push_bit boardBits (NOT 0))"

definition to :: "cint \<Rightarrow> cint" where
  "to m = m AND NOT (push_bit boardBits (NOT 0))"

section \<open>Transposition table: data (Engine.h, ttable.c)\<close>

text \<open>
  A slot is two 64-bit words. \<open>ttable.c\<close> reaches the second word both as \<open>data\<close> and
  through the bit-fields \<open>score\<close>, \<open>depth\<close>, \<open>date\<close>, \<open>isUpperBound\<close>, \<open>isLowerBound\<close>,
  \<open>isHardBound\<close> and \<open>isWinLossScore\<close> that overlay it.
\<close>

record ttSlot =
  key :: u64
  data :: u64

text \<open>
  Modelled from the spec: the declarations \<open>ttable.c\<close> uses that are not in the
  sources at hand (the \<open>struct ttSlot\<close> of \<open>Engine.h\<close> there is an older one, and the
  score limits, \<open>maxInt\<close>, \<open>ttDepthBits\<close>, \<open>ttDateBits\<close> and \<open>xorshift64star\<close> are
  declared elsewhere). They are parameters: the limits as \<open>int\<close> values, and the
  layout of \<open>data\<close> as the position of each field, with \<open>score\<close> a signed field of
  \<open>scoreBits\<close> bits, \<open>depth\<close> an unsigned field of \<open>ttDepthBits\<close> bits, \<open>date\<close> an
  unsigned field of \<open>ttDateBits\<close> bits and each flag one bit.
\<close>

record decls =
  maxEval :: cint
  minEval :: cint
  maxDtz :: cint
  minDtz :: cint
  maxMate :: cint
  minMate :: cint
  maxInt :: cint
  ttDepthBits :: nat
  ttDateBits :: nat
  scoreBits :: nat
  scoreOff :: nat
  depthOff :: nat
  dateOff :: nat
  isUpperBoundBit :: nat
  isLowerBoundBit :: nat
  isHardBoundBit :: nat
  isWinLossScoreBit :: nat
  xorshift64star :: "u64 \<Rightarrow> u64"

record ttable =
  slots :: "ttSlot list"
  tt_size :: u64
  tt_mask :: u64
  now :: cint
  baseHash :: u64

record board =
  hash :: u64
  halfmoveClock :: "8 word"
  plyNumber :: cint

record engine =
  board :: board
  tt :: ttable
  rootPlyNumber :: cint

datatype error = OutOfBounds | AssertFailed | Abort

definition bucketLen :: nat where
  "bucketLen = 4"

subsection \<open>Bit-fields of \<open>data\<close>\<close>

definition getBits :: "nat \<Rightarrow> nat \<Rightarrow> u64 \<Rightarrow> u64" where
  "getBits off w d = take_bit w (drop_bit off d)"

definition setBits :: "nat \<Rightarrow> nat \<Rightarrow> u64 \<Rightarrow> u64 \<Rightarrow> u64" where
  "setBits off w v d = (d AND NOT (push_bit off (mask w))) OR push_bit off (take_bit w v)"

text \<open>Reading a field gives an \<open>int\<close>: sign-extended for \<open>score\<close>, zero-extended otherwise.\<close>

definition slot_score :: "decls \<Rightarrow> ttSlot \<Rightarrow> cint" where
  "slot_score P s =
     signed_take_bit (scoreBits P - 1) (ucast (getBits (scoreOff P) (scoreBits P) (data s)))"

definition slot_depth :: "decls \<Rightarrow> ttSlot \<Rightarrow> cint" where
  "slot_depth P s = ucast (getBits (depthOff P) (ttDepthBits P) (data s))"

definition slot_date :: "decls \<Rightarrow> ttSlot \<Rightarrow> cint" where
  "slot_date P s = ucast (getBits (dateOff P) (ttDateBits P) (data s))"

definition isUpperBound :: "decls \<Rightarrow> ttSlot \<Rightarrow> bool" where
  "isUpperBound P s = (getBits (isUpperBoundBit P) 1 (data s) \<noteq> 0)"

definition isLowerBound :: "decls \<Rightarrow> ttSlot \<Rightarrow> bool" where
  "isLowerBound P s = (getBits (isLowerBoundBit P) 1 (data s) \<noteq> 0)"

definition isHardBound :: "decls \<Rightarrow> ttSlot \<Rightarrow> bool" where
  "isHardBound P s = (getBits (isHardBoundBit P) 1 (data s) \<noteq> 0)"

definition isWinLossScore :: "decls \<Rightarrow> ttSlot \<Rightarrow> bool" where
  "isWinLossScore P s = (getBits (isWinLossScoreBit P) 1 (data s) \<noteq> 0)"

text \<open>Assigning to a field keeps the low bits of the value that fit the field.\<close>

definition set_score :: "decls \<Rightarrow> cint \<Rightarrow> ttSlot \<Rightarrow> ttSlot" where
  "set_score P v s = s\<lparr>data := setBits (scoreOff P) (scoreBits P) (ucast v) (data s)\<rparr>"

definition set_depth :: "decls \<Rightarrow> cint \<Rightarrow> ttSlot \<Rightarrow> ttSlot" where
  "set_depth P v s = s\<lparr>data := setBits (depthOff P) (ttDepthBits P) (ucast v) (data s)\<rparr>"

definition set_date :: "decls \<Rightarrow> cint \<Rightarrow> ttSlot \<Rightarrow> ttSlot" where
  "set_date P v s = s\<lparr>data := setBits (dateOff P) (ttDateBits P) (ucast v) (data s)\<rparr>"

definition set_isUpperBound :: "decls \<Rightarrow> bool \<Rightarrow> ttSlot \<Rightarrow> ttSlot" where
  "set_isUpperBound P b s = s\<lparr>data := setBits (isUpperBoundBit P) 1 (of_bool b) (data s)\<rparr>"

definition set_isLowerBound :: "decls \<Rightarrow> bool \<Rightarrow> ttSlot \<Rightarrow> ttSlot" where
  "set_isLowerBound P b s = s\<lparr>data := setBits (isLowerBoundBit P) 1 (of_bool b) (data s)\<rparr>"

definition set_isHardBound :: "decls \<Rightarrow> bool \<Rightarrow> ttSlot \<Rightarrow> ttSlot" where
  "set_isHardBound P b s = s\<lparr>data := setBits (isHardBoundBit P) 1 (of_bool b) (data s)\<rparr>"

definition set_isWinLossScore :: "decls \<Rightarrow> bool \<Rightarrow> ttSlot \<Rightarrow> ttSlot" where
  "set_isWinLossScore P b s =
     s\<lparr>data := setBits (isWinLossScoreBit P) 1 (of_bool b) (data s)\<rparr>"

subsection \<open>Array access\<close>

text \<open>
  \<open>self->tt.slots[ix]\<close>: reading or writing outside the allocation is undefined in C and
  is the error \<open>OutOfBounds\<close> here. The empty list stands for the null pointer of an
  engine whose table was never allocated.
\<close>

definition slotAt :: "engine \<Rightarrow> u64 \<Rightarrow> error + ttSlot" where
  "slotAt self ix =
     (if unat ix < length (slots (tt self)) then Inr (slots (tt self) ! unat ix)
      else Inl OutOfBounds)"

definition storeAt :: "engine \<Rightarrow> u64 \<Rightarrow> ttSlot \<Rightarrow> error + engine" where
  "storeAt self ix s =
     (if unat ix < length (slots (tt self))
      then Inr (self\<lparr>tt := (tt self)\<lparr>slots := (slots (tt self))[unat ix := s]\<rparr>\<rparr>)
      else Inl OutOfBounds)"

subsection \<open>prio\<close>

text \<open>Modelled from the spec: the macro \<open>ones(n)\<close> is missing; it is \<open>n\<close> low one bits.\<close>

definition ones :: "nat \<Rightarrow> cint" where
  "ones n = mask n"

text \<open>
  \<open>prio\<close> takes its index as an \<open>int\<close>; a negative index is outside the allocation.
\<close>

definition prio :: "decls \<Rightarrow> engine \<Rightarrow> cint \<Rightarrow> error + cint" where
  "prio P self ix =
     (if 0 \<le>s ix then
        (case slotAt self (scast ix) of
           Inl e \<Rightarrow> Inl e
         | Inr slot \<Rightarrow>
             let age = (now (tt self) - slot_date P slot) AND ones (ttDateBits P)
             in Inr (push_bit (ttDepthBits P) (- age) + slot_depth P slot))
      else Inl OutOfBounds)"


subsection \<open>ttRead\<close>

text \<open>
  The loop of \<open>ttRead\<close> from index \<open>i\<close> on; \<open>probe\<close> is the local \<open>hash\<close>, the board's
  hash xor'ed with \<open>baseHash\<close>.
\<close>

function ttRead_probe :: "decls \<Rightarrow> engine \<Rightarrow> u64 \<Rightarrow> u64 \<Rightarrow> nat \<Rightarrow> error + ttSlot" where
  "ttRead_probe P self probe bucket i =
     (if i < bucketLen then
        (case slotAt self (bucket + of_nat i) of
           Inl e \<Rightarrow> Inl e
         | Inr local \<Rightarrow>
             let local = local\<lparr>key := key local XOR data local\<rparr> in
             if key local = probe then
               (if isWinLossScore P local then
                  let rootDistance = plyNumber (board self) - rootPlyNumber self in
                  Inr (set_score P
                        (slot_score P local
                          + (if 0 \<le>s slot_score P local then - rootDistance else rootDistance))
                        local)
                else Inr local)
             else ttRead_probe P self probe bucket (i + 1))
      else Inr \<lparr>key = probe, data = 0\<rparr>)"
  by pat_completeness auto
termination
  by (relation "measure (\<lambda>(P, self, probe, bucket, i). bucketLen - i)") auto

declare ttRead_probe.simps [simp del]

definition ttRead :: "decls \<Rightarrow> engine \<Rightarrow> error + ttSlot" where
  "ttRead P self =
     (let probe = hash (board self) XOR baseHash (tt self);
          bucket = probe AND tt_mask (tt self)
      in ttRead_probe P self probe bucket 0)"

subsection \<open>ttWrite\<close>

text \<open>
  Modelled from the spec: the macro \<open>ply(self)\<close> is missing; the spec calls it the
  distance from the root, which \<open>ttRead\<close> computes as \<open>plyNumber - rootPlyNumber\<close>.
\<close>

definition ply :: "engine \<Rightarrow> cint" where
  "ply self = plyNumber (board self) - rootPlyNumber self"

text \<open>
  A block of statements either falls through with the slot it has built, returns from
  \<open>ttWrite\<close> with a value, or stops at a failed assertion.
\<close>

datatype flow = Next ttSlot | Return cint | Fail error

definition ttWrite_fields ::
  "decls \<Rightarrow> engine \<Rightarrow> ttSlot \<Rightarrow> cint \<Rightarrow> cint \<Rightarrow> cint \<Rightarrow> cint \<Rightarrow> ttSlot" where
  "ttWrite_fields P self slot depth score alpha beta =
     (let slot = set_score P score slot;
          slot = set_depth P depth slot;
          slot = set_date P (now (tt self)) slot;
          slot = set_isUpperBound P (score \<le>s alpha) slot;
          slot = set_isLowerBound P (beta \<le>s score) slot;
          slot = set_isHardBound P False slot;
          slot = set_isWinLossScore P False slot
      in slot)"

definition ttWrite_high :: "decls \<Rightarrow> engine \<Rightarrow> cint \<Rightarrow> ttSlot \<Rightarrow> flow" where
  "ttWrite_high P self score slot =
     (if maxEval P <s score then
        (if maxEval P + 1 <s score then
           (if halfmoveClock (board self) = 0 \<and> score \<le>s maxDtz P then Return score
            else
              let slot = set_score P (slot_score P slot + ply self) slot;
                  slot = set_isWinLossScore P True slot
              in if slot_score P slot <s maxMate P
                 then Next (set_isHardBound P (isLowerBound P slot) slot)
                 else Fail AssertFailed)
         else Next (set_isHardBound P (isLowerBound P slot) slot))
      else Next slot)"

definition ttWrite_low :: "decls \<Rightarrow> engine \<Rightarrow> cint \<Rightarrow> ttSlot \<Rightarrow> flow" where
  "ttWrite_low P self score slot =
     (if score <s minEval P then
        (if score <s minEval P - 1 then
           (if halfmoveClock (board self) = 0 \<and> minDtz P \<le>s score then Return score
            else
              let slot = set_score P (slot_score P slot - ply self) slot;
                  slot = set_isWinLossScore P True slot
              in if minMate P \<le>s slot_score P slot
                 then Next (set_isHardBound P (isUpperBound P slot) slot)
                 else Fail AssertFailed)
         else Next (set_isHardBound P (isUpperBound P slot) slot))
      else Next slot)"

text \<open>
  The search for the slot to overwrite, from index \<open>j\<close> on, with the best index \<open>i\<close>
  and its priority \<open>iPrio\<close> so far. \<open>prio\<close> gets the \<open>size_t\<close> index as an \<open>int\<close>.
\<close>

function ttWrite_find ::
  "decls \<Rightarrow> engine \<Rightarrow> ttSlot \<Rightarrow> u64 \<Rightarrow> nat \<Rightarrow> cint \<Rightarrow> cint \<Rightarrow> error + cint" where
  "ttWrite_find P self slot bucket j i iPrio =
     (if j < bucketLen then
        (case slotAt self (bucket + of_nat j) of
           Inl e \<Rightarrow> Inl e
         | Inr local \<Rightarrow>
             if key local XOR data local = key slot then Inr (of_nat j)
             else
               (case prio P self (ucast (bucket + of_nat j)) of
                  Inl e \<Rightarrow> Inl e
                | Inr jPrio \<Rightarrow>
                    if jPrio <s iPrio
                    then ttWrite_find P self slot bucket (j + 1) (of_nat j) jPrio
                    else ttWrite_find P self slot bucket (j + 1) i iPrio))
      else Inr i)"
  by pat_completeness auto
termination
  by (relation "measure (\<lambda>(P, self, slot, bucket, j, i, iPrio). bucketLen - j)") auto

declare ttWrite_find.simps [simp del]

definition ttWrite ::
  "decls \<Rightarrow> engine \<Rightarrow> ttSlot \<Rightarrow> cint \<Rightarrow> cint \<Rightarrow> cint \<Rightarrow> cint \<Rightarrow> error + cint \<times> engine" where
  "ttWrite P self slot depth score alpha beta =
     (if isHardBound P slot
         \<and> ((isLowerBound P slot \<and> score \<le>s slot_score P slot)
            \<or> (isUpperBound P slot \<and> slot_score P slot \<le>s score))
      then Inr (slot_score P slot, self)
      else
        (case ttWrite_high P self score (ttWrite_fields P self slot depth score alpha beta) of
           Fail e \<Rightarrow> Inl e
         | Return r \<Rightarrow> Inr (r, self)
         | Next slot \<Rightarrow>
             (case ttWrite_low P self score slot of
                Fail e \<Rightarrow> Inl e
              | Return r \<Rightarrow> Inr (r, self)
              | Next slot \<Rightarrow>
                  let bucket = key slot AND tt_mask (tt self) in
                  (case ttWrite_find P self slot bucket 0 (- 1) (maxInt P) of
                     Inl e \<Rightarrow> Inl e
                   | Inr i \<Rightarrow>
                       if 0 \<le>s i then
                         (case storeAt self (bucket + scast i)
                                 (slot\<lparr>key := key slot XOR data slot\<rparr>) of
                            Inl e \<Rightarrow> Inl e
                          | Inr self \<Rightarrow> Inr (score, self))
                       else Inl AssertFailed))))"

subsection \<open>ttClearFast\<close>

definition ttClearFast :: "decls \<Rightarrow> engine \<Rightarrow> engine" where
  "ttClearFast P self =
     self\<lparr>tt := (tt self)\<lparr>baseHash := NOT (xorshift64star P (NOT (baseHash (tt self))))\<rparr>\<rparr>"


subsection \<open>Loop counters\<close>

lemma unat_succ_less:
  fixes i b :: "'a::len word"
  assumes "i < b"
  shows "unat (i + 1) = unat i + 1" and "unat i < unat b"
proof -
  show lt: "unat i < unat b"
    using assms by (simp add: word_less_nat_alt)
  have "unat b < 2 ^ LENGTH('a)"
    by (rule unsigned_less)
  with lt have "unat i + 1 < 2 ^ LENGTH('a)"
    by linarith
  then have "unat i + unat (1 :: 'a word) < 2 ^ LENGTH('a)"
    by simp
  then have "unat (i + 1) = unat i + unat (1 :: 'a word)"
    by (simp only: unat_add_lem)
  then show "unat (i + 1) = unat i + 1"
    by simp
qed

lemma unat_halve_mask_less:
  fixes m c :: "'a::len word"
  assumes "0 < m"
  shows "unat (drop_bit 1 (m AND NOT c)) < unat m"
proof -
  have pos: "0 < unat m"
    using assms by (simp add: word_less_nat_alt)
  have "unat (drop_bit 1 (m AND NOT c)) = drop_bit 1 (unat (m AND NOT c))"
    by (rule unat_drop_bit_eq)
  also have "\<dots> = unat (m AND NOT c) div 2"
    by (simp add: drop_bit_eq_div)
  also have "\<dots> \<le> unat m div 2"
    by (intro div_le_mono) (simp only: word_le_nat_alt [symmetric] word_and_le2)
  also have "\<dots> < unat m"
    using pos by simp
  finally show ?thesis .
qed

subsection \<open>ttSetSize\<close>

text \<open>
  \<open>sizeof(struct ttSlot)\<close>, as the assertion at the top of \<open>ttSetSize\<close> has it: two
  \<open>uint64_t\<close>.
\<close>

definition sizeofSlot :: u64 where
  "sizeofSlot = 16"

text \<open>
  The loop that doubles \<open>newSize\<close> while it does not exceed the requested size, the
  parameter \<open>size\<close> of \<open>ttSetSize\<close>, here \<open>bytes\<close>. It does not end when started at
  \<open>newSize = 0\<close>, so not returning is the value \<open>None\<close>.
\<close>

partial_function (option) ttSetSize_newSize :: "u64 \<Rightarrow> u64 \<Rightarrow> u64 \<Rightarrow> (u64 \<times> u64) option" where
  "ttSetSize_newSize bytes newSize newMask =
     (if newSize \<le> bytes - newSize
      then ttSetSize_newSize bytes (newSize + newSize) (push_bit 1 newMask + of_nat bucketLen)
      else Some (newSize, newMask))"

declare ttSetSize_newSize.simps [code]

text \<open>The loop that shrinks the table contents, from index \<open>i\<close> on.\<close>

function ttSetSize_shrink :: "decls \<Rightarrow> u64 \<Rightarrow> u64 \<Rightarrow> engine \<Rightarrow> error + engine" where
  "ttSetSize_shrink P newMask i self =
     (if i < tt_mask (tt self) + of_nat bucketLen then
        (case prio P self (ucast (i AND (newMask + of_nat bucketLen - 1))) of
           Inl e \<Rightarrow> Inl e
         | Inr targetPrio \<Rightarrow>
             (case prio P self (ucast i) of
                Inl e \<Rightarrow> Inl e
              | Inr sourcePrio \<Rightarrow>
                  if targetPrio <s sourcePrio then
                    (case slotAt self i of
                       Inl e \<Rightarrow> Inl e
                     | Inr s \<Rightarrow>
                         (case storeAt self (i AND (newMask + of_nat bucketLen - 1)) s of
                            Inl e \<Rightarrow> Inl e
                          | Inr self' \<Rightarrow> ttSetSize_shrink P newMask (i + 1) self'))
                  else ttSetSize_shrink P newMask (i + 1) self))
      else Inr self)"
  by pat_completeness auto
termination
proof (relation "measure (\<lambda>(P, newMask, i, self). unat (tt_mask (tt self) + of_nat bucketLen) - unat i)")
  show "wf (measure (\<lambda>(P, newMask, i, self). unat (tt_mask (tt self) + of_nat bucketLen) - unat i))"
    by simp
next
  fix P :: decls and newMask i :: u64 and self self' :: engine and s :: ttSlot
  assume lt: "i < tt_mask (tt self) + of_nat bucketLen"
    and st: "storeAt self (i AND (newMask + of_nat bucketLen - 1)) s = Inr self'"
  from st have "tt_mask (tt self') = tt_mask (tt self)"
    by (auto simp add: storeAt_def split: if_splits)
  with unat_succ_less [OF lt]
  show "((P, newMask, i + 1, self'), P, newMask, i, self)
    \<in> measure (\<lambda>(P, newMask, i, self). unat (tt_mask (tt self) + of_nat bucketLen) - unat i)"
    by simp
next
  fix P :: decls and newMask i :: u64 and self :: engine
  assume lt: "i < tt_mask (tt self) + of_nat bucketLen"
  from unat_succ_less [OF lt]
  show "((P, newMask, i + 1, self), P, newMask, i, self)
    \<in> measure (\<lambda>(P, newMask, i, self). unat (tt_mask (tt self) + of_nat bucketLen) - unat i)"
    by simp
qed

declare ttSetSize_shrink.simps [simp del]

text \<open>
  The allocator is the environment of \<open>ttSetSize\<close>: whether a request of so many bytes
  succeeds, and what the memory beyond the old block holds (it is not initialised).
\<close>

record allocator =
  allocOk :: "u64 \<Rightarrow> bool"
  junk :: "nat \<Rightarrow> ttSlot"

text \<open>
  \<open>realloc\<close>: on success a block of \<open>n\<close> bytes that keeps the old contents up to the
  smaller of the two sizes; on failure the null pointer, \<open>None\<close>.
\<close>

definition realloc :: "allocator \<Rightarrow> ttSlot list \<Rightarrow> u64 \<Rightarrow> ttSlot list option" where
  "realloc A old n =
     (if allocOk A n
      then Some (map (\<lambda>i. if i < length old then old ! i else junk A i)
                  [0 ..< unat n div unat sizeofSlot])
      else None)"

text \<open>The loop that retries with half the size while the allocation fails.\<close>

function ttSetSize_retry ::
  "allocator \<Rightarrow> ttSlot list \<Rightarrow> ttSlot list option \<Rightarrow> u64 \<Rightarrow> u64
    \<Rightarrow> ttSlot list option \<times> u64 \<times> u64" where
  "ttSetSize_retry A old newSlots newSize newMask =
     (if newSlots = None \<and> 0 < newMask then
        let newSize = drop_bit 1 newSize;
            newMask = drop_bit 1 (newMask AND NOT (of_nat bucketLen))
        in ttSetSize_retry A old (realloc A old newSize) newSize newMask
      else (newSlots, newSize, newMask))"
  by pat_completeness auto
termination
proof (relation "measure (\<lambda>(A, old, newSlots, newSize, newMask). unat newMask)")
  show "wf (measure (\<lambda>(A, old, newSlots, newSize, newMask). unat newMask))"
    by simp
next
  fix A :: allocator and old :: "ttSlot list" and newSlots :: "ttSlot list option"
    and newSize newMask x xa :: u64
  assume "newSlots = None \<and> 0 < newMask"
    and "xa = drop_bit 1 (newMask AND NOT (of_nat bucketLen))"
  then have "unat xa < unat newMask"
    by (simp only: unat_halve_mask_less)
  then show "((A, old, realloc A old x, x, xa), A, old, newSlots, newSize, newMask)
    \<in> measure (\<lambda>(A, old, newSlots, newSize, newMask). unat newMask)"
    by simp
qed

declare ttSetSize_retry.simps [simp del]

text \<open>\<open>memset(newSlots, 0, bucketLen * sizeof newSlots[0])\<close>\<close>

definition memsetBucket :: "ttSlot list \<Rightarrow> error + ttSlot list" where
  "memsetBucket newSlots =
     (if bucketLen \<le> length newSlots
      then Inr (replicate bucketLen \<lparr>key = 0, data = 0\<rparr> @ drop bucketLen newSlots)
      else Inl OutOfBounds)"

text \<open>The loop that expands the table contents, from index \<open>i\<close> on.\<close>

function ttSetSize_expand :: "engine \<Rightarrow> u64 \<Rightarrow> u64 \<Rightarrow> ttSlot list \<Rightarrow> error + ttSlot list" where
  "ttSetSize_expand self newMask i newSlots =
     (if i < newMask + of_nat bucketLen then
        let src = i AND (tt_mask (tt self) + of_nat bucketLen - 1) in
        if unat i < length newSlots \<and> unat src < length newSlots
        then ttSetSize_expand self newMask (i + 1) (newSlots[unat i := newSlots ! unat src])
        else Inl OutOfBounds
      else Inr newSlots)"
  by pat_completeness auto
termination
proof (relation "measure (\<lambda>(self, newMask, i, newSlots). unat (newMask + of_nat bucketLen) - unat i)")
  show "wf (measure (\<lambda>(self, newMask, i, newSlots). unat (newMask + of_nat bucketLen) - unat i))"
    by simp
next
  fix self :: engine and newMask i x :: u64 and newSlots :: "ttSlot list"
  assume lt: "i < newMask + of_nat bucketLen"
  from unat_succ_less [OF lt]
  show "((self, newMask, i + 1, newSlots[unat i := newSlots ! unat x]), self, newMask, i, newSlots)
    \<in> measure (\<lambda>(self, newMask, i, newSlots). unat (newMask + of_nat bucketLen) - unat i)"
    by simp
qed

declare ttSetSize_expand.simps [simp del]

definition ttSetSize :: "decls \<Rightarrow> allocator \<Rightarrow> engine \<Rightarrow> u64 \<Rightarrow> (error + engine) option" where
  "ttSetSize P A self bytes =
     (let newSize = of_nat bucketLen * sizeofSlot;
          bytes = max bytes newSize;
          newMask = 0
      in case ttSetSize_newSize bytes newSize newMask of
           None \<Rightarrow> None
         | Some (newSize, newMask) \<Rightarrow>
             Some
               (case (if newSize < tt_size (tt self) then ttSetSize_shrink P newMask 0 self
                      else Inr self) of
                  Inl e \<Rightarrow> Inl e
                | Inr self \<Rightarrow>
                    (case ttSetSize_retry A (slots (tt self))
                            (realloc A (slots (tt self)) newSize) newSize newMask of
                       (None, newSize, newMask) \<Rightarrow> Inl Abort
                     | (Some newSlots, newSize, newMask) \<Rightarrow>
                         (case (if slots (tt self) = [] then memsetBucket newSlots
                                else Inr newSlots) of
                            Inl e \<Rightarrow> Inl e
                          | Inr newSlots \<Rightarrow>
                              (case (if tt_size (tt self) < newSize
                                     then ttSetSize_expand self newMask 0 newSlots
                                     else Inr newSlots) of
                                 Inl e \<Rightarrow> Inl e
                               | Inr newSlots \<Rightarrow>
                                   Inr (self\<lparr>tt := (tt self)\<lparr>slots := newSlots,
                                          tt_size := newSize, tt_mask := newMask\<rparr>\<rparr>))))))"


section \<open>Well-formed declarations and tables\<close>

text \<open>
  The bit-fields of \<open>data\<close> as (offset, width) pairs. A layout is well formed when the
  fields lie within the 64 bits and no two of them overlap, \<open>score\<close> has between 1 and 32
  bits, and a priority \<open>(-age << ttDepthBits) + depth\<close> fits an \<open>int\<close>.
\<close>

definition apart :: "nat \<times> nat \<Rightarrow> nat \<times> nat \<Rightarrow> bool" where
  "apart f g = (fst f + snd f \<le> fst g \<or> fst g + snd g \<le> fst f)"

definition fits :: "nat \<times> nat \<Rightarrow> bool" where
  "fits f = (fst f + snd f \<le> 64)"

fun allApart :: "(nat \<times> nat) list \<Rightarrow> bool" where
  "allApart [] = True"
| "allApart (f # fs) = (list_all (apart f) fs \<and> allApart fs)"

definition layoutFields :: "decls \<Rightarrow> (nat \<times> nat) list" where
  "layoutFields P =
     [(scoreOff P, scoreBits P), (depthOff P, ttDepthBits P), (dateOff P, ttDateBits P),
      (isUpperBoundBit P, 1), (isLowerBoundBit P, 1), (isHardBoundBit P, 1),
      (isWinLossScoreBit P, 1)]"

definition wf_layout :: "decls \<Rightarrow> bool" where
  "wf_layout P =
     (allApart (layoutFields P) \<and> list_all fits (layoutFields P)
      \<and> 0 < scoreBits P \<and> scoreBits P \<le> 32
      \<and> ttDepthBits P + ttDateBits P \<le> 30)"

text \<open>
  The declarations are well formed when the layout is, \<open>maxInt\<close> is the largest \<open>int\<close>
  and the evaluation bounds are in order.
\<close>

definition wf_decls :: "decls \<Rightarrow> bool" where
  "wf_decls P = (wf_layout P \<and> maxInt P = 2147483647 \<and> minEval P \<le>s maxEval P)"

text \<open>\<open>x\<close> is a value of the \<open>score\<close> field.\<close>

definition scoreFits :: "decls \<Rightarrow> int \<Rightarrow> bool" where
  "scoreFits P x = (- (2 ^ (scoreBits P - 1)) \<le> x \<and> x < 2 ^ (scoreBits P - 1))"

text \<open>
  A table is well formed when the allocation holds the \<open>mask + bucketLen\<close> slots that
  the code indexes, and an index fits the \<open>int\<close> that \<open>prio\<close> takes.
\<close>

definition wf_table :: "engine \<Rightarrow> bool" where
  "wf_table self =
     (length (slots (tt self)) = unat (tt_mask (tt self)) + bucketLen
      \<and> length (slots (tt self)) \<le> 2 ^ 31)"

section \<open>Priorities\<close>

text \<open>The value that \<open>prio\<close> computes for a slot \<open>s\<close> when the date counter is \<open>nw\<close>.\<close>


definition prioOf :: "decls \<Rightarrow> cint \<Rightarrow> ttSlot \<Rightarrow> cint" where
  "prioOf P nw s =
     push_bit (ttDepthBits P) (- ((nw - slot_date P s) AND ones (ttDateBits P))) + slot_depth P s"

text \<open>
  The priority as the specification words it, on integers:
  \<open>age := (now - date) mod 2^dateBits\<close> and \<open>prio := (-age << depthBits) + depth\<close>.
\<close>

definition spec_age :: "decls \<Rightarrow> cint \<Rightarrow> ttSlot \<Rightarrow> int" where
  "spec_age P nw s = (sint nw - sint (slot_date P s)) mod 2 ^ ttDateBits P"

definition spec_prio :: "decls \<Rightarrow> cint \<Rightarrow> ttSlot \<Rightarrow> int" where
  "spec_prio P nw s = - spec_age P nw s * 2 ^ ttDepthBits P + sint (slot_depth P s)"


section \<open>Outcomes of the loops over a bucket\<close>

text \<open>
  The slot that the search of \<open>ttWrite\<close> is to select, given which slots of the bucket
  match (\<open>M\<close>) and their priorities (\<open>pr\<close>): the first slot that matches, or else the
  first slot of least priority.
\<close>

definition selected ::
  "(nat \<Rightarrow> bool) \<Rightarrow> (nat \<Rightarrow> int) \<Rightarrow> nat \<Rightarrow> bool" where
  "selected M pr i =
     (i < bucketLen \<and>
      (if \<exists>k<bucketLen. M k then M i \<and> (\<forall>k<i. \<not> M k)
       else (\<forall>k<bucketLen. pr i \<le> pr k) \<and> (\<forall>k<i. pr i < pr k)))"

text \<open>What \<open>ttRead\<close> returns for a slot \<open>s\<close> of the table that matches the probe.\<close>

definition ttRead_hit :: "decls \<Rightarrow> engine \<Rightarrow> ttSlot \<Rightarrow> ttSlot" where
  "ttRead_hit P self s =
     (let local = s\<lparr>key := key s XOR data s\<rparr> in
      if isWinLossScore P local then
        let rootDistance = plyNumber (board self) - rootPlyNumber self in
        set_score P
          (slot_score P local + (if 0 \<le>s slot_score P local then - rootDistance else rootDistance))
          local
      else local)"


section \<open>Outcome of the shrinking loop\<close>



section \<open>The table between two calls of \<open>ttSetSize\<close>\<close>

text \<open>
  Before its first allocation the table has no slots, and \<open>size\<close> and \<open>mask\<close> are zero.
  Afterwards the slots are those that \<open>mask\<close> and \<open>size\<close> tell: \<open>mask + bucketLen\<close>
  slots, a power of two, of \<open>sizeof(struct ttSlot)\<close> bytes each.
\<close>

definition wf_alloc :: "engine \<Rightarrow> bool" where
  "wf_alloc self =
     (if slots (tt self) = [] then tt_size (tt self) = 0 \<and> tt_mask (tt self) = 0
      else wf_table self
        \<and> unat (tt_size (tt self)) = length (slots (tt self)) * unat sizeofSlot
        \<and> (\<exists>m\<in>{2..31}. length (slots (tt self)) = 2 ^ m))"

section \<open>Sample declarations\<close>

text \<open>
  Values for the missing declarations, to run the functions on: 16-bit scores in the
  low bits of \<open>data\<close>, 8 bits of depth and 12 bits of date from bit 32 on, the flags
  from bit 52 on, and for \<open>xorshift64star\<close> the generator of that name (shifts by 12,
  25 and 27, then a multiplication).
\<close>

definition xorshift64star_ref :: "u64 \<Rightarrow> u64" where
  "xorshift64star_ref x =
     (let x = x XOR drop_bit 12 x;
          x = x XOR push_bit 25 x;
          x = x XOR drop_bit 27 x
      in x * 2685821657736338717)"

definition sampleDecls :: decls where
  "sampleDecls =
     \<lparr>maxEval = 29999, minEval = - 29999, maxDtz = 31000, minDtz = - 31000,
      maxMate = 32767, minMate = - 32767, maxInt = 2147483647,
      ttDepthBits = 8, ttDateBits = 12, scoreBits = 16, scoreOff = 0, depthOff = 32,
      dateOff = 40, isUpperBoundBit = 52, isLowerBoundBit = 53, isHardBoundBit = 54,
      isWinLossScoreBit = 55, xorshift64star = xorshift64star_ref\<rparr>"

text \<open>An engine three plies from the root, with one bucket of empty slots.\<close>

definition sampleEngine :: engine where
  "sampleEngine =
     \<lparr>board = \<lparr>hash = 4660, halfmoveClock = 3, plyNumber = 13\<rparr>,
      tt = \<lparr>slots = replicate 4 \<lparr>key = 0, data = 0\<rparr>, tt_size = 64, tt_mask = 0,
            now = 5, baseHash = 0\<rparr>,
      rootPlyNumber = 10\<rparr>"

text \<open>
  The sample engine after \<open>ttWrite\<close> of the score 32000 at depth 10 for its position,
  and the same two plies deeper.
\<close>

definition sampleWritten :: engine where
  "sampleWritten =
     sampleEngine\<lparr>tt := (tt sampleEngine)\<lparr>slots :=
       [\<lparr>key = 36034337526804279, data = 36034337526807811\<rparr>, \<lparr>key = 0, data = 0\<rparr>,
        \<lparr>key = 0, data = 0\<rparr>, \<lparr>key = 0, data = 0\<rparr>]\<rparr>\<rparr>"

definition sampleLater :: engine where
  "sampleLater = sampleWritten\<lparr>board := (board sampleWritten)\<lparr>plyNumber := 15\<rparr>\<rparr>"

text \<open>
  The sample engine after \<open>ttWrite\<close> of the score 100 at depth 300 for its position.
\<close>

definition sampleDeep :: engine where
  "sampleDeep =
     sampleEngine\<lparr>tt := (tt sampleEngine)\<lparr>slots :=
       [\<lparr>key = 5686536704592, data = 5686536700004\<rparr>, \<lparr>key = 0, data = 0\<rparr>,
        \<lparr>key = 0, data = 0\<rparr>, \<lparr>key = 0, data = 0\<rparr>]\<rparr>\<rparr>"

text \<open>
  The sample engine after \<open>ttWrite\<close> of the score 32763 at depth 10 for its position,
  and the same with the board five plies before the root of the search.
\<close>

definition sampleMate :: engine where
  "sampleMate =
     sampleEngine\<lparr>tt := (tt sampleEngine)\<lparr>slots :=
       [\<lparr>key = 36034337526803914, data = 36034337526808574\<rparr>, \<lparr>key = 0, data = 0\<rparr>,
        \<lparr>key = 0, data = 0\<rparr>, \<lparr>key = 0, data = 0\<rparr>]\<rparr>\<rparr>"

definition sampleEarlier :: engine where
  "sampleEarlier = sampleMate\<lparr>board := (board sampleMate)\<lparr>plyNumber := 5\<rparr>\<rparr>"

text \<open>The sample engine right after a move that reset the halfmove clock.\<close>

definition sampleZeroing :: engine where
  "sampleZeroing = sampleEngine\<lparr>board := (board sampleEngine)\<lparr>halfmoveClock := 0\<rparr>\<rparr>"

text \<open>
  The sample engine with all bits of \<open>baseHash\<close> set, after \<open>ttWrite\<close> of the score 100
  at depth 10 for its position.
\<close>

definition stuckEngine :: engine where
  "stuckEngine =
     sampleEngine\<lparr>tt := (tt sampleEngine)\<lparr>slots :=
       [\<lparr>key = 18446738533201735087, data = 5540507811940\<rparr>, \<lparr>key = 0, data = 0\<rparr>,
        \<lparr>key = 0, data = 0\<rparr>, \<lparr>key = 0, data = 0\<rparr>], baseHash := - 1\<rparr>\<rparr>"

text \<open>
  The written sample engine after a second \<open>ttWrite\<close>, for the position whose hash is
  491796270583639499, back at the first position.
\<close>

definition collidingEngine :: engine where
  "collidingEngine =
     sampleEngine\<lparr>tt := (tt sampleEngine)\<lparr>slots :=
       [\<lparr>key = 36034337526804279, data = 36034337526807811\<rparr>,
        \<lparr>key = 491792929099083183, data = 5540507811940\<rparr>,
        \<lparr>key = 0, data = 0\<rparr>, \<lparr>key = 0, data = 0\<rparr>]\<rparr>\<rparr>"

text \<open>
  An engine whose bucket holds four entries for other positions (probe hashes 1 to
  4), of depths 5, 3, 9 and 1, written 0, 1, 2 and 2 searches ago.
\<close>

definition agedEngine :: engine where
  "agedEngine =
     sampleEngine\<lparr>tt := (tt sampleEngine)\<lparr>slots :=
       [\<lparr>key = 5519032975361, data = 5519032975360\<rparr>,
        \<lparr>key = 4410931412994, data = 4410931412992\<rparr>,
        \<lparr>key = 3337189588995, data = 3337189588992\<rparr>,
        \<lparr>key = 3302829850628, data = 3302829850624\<rparr>]\<rparr>\<rparr>"

text \<open>
  An allocator that grants every request, and one that grants only requests of up to
  64 bytes. The memory that \<open>realloc\<close> adds is not initialised: here it holds slots
  that are not zero.
\<close>

definition plentyAlloc :: allocator where
  "plentyAlloc = \<lparr>allocOk = (\<lambda>n. True), junk = (\<lambda>i. \<lparr>key = 1, data = of_nat i\<rparr>)\<rparr>"


text \<open>The sample engine before the first allocation of its table.\<close>

definition freshEngine :: engine where
  "freshEngine = sampleEngine\<lparr>tt := (tt sampleEngine)\<lparr>slots := [], tt_size := 0\<rparr>\<rparr>"



section \<open>Bit-fields\<close>

lemma bit_setBits:
  "bit (setBits off w v d) n
    = (n < 64 \<and> (if off \<le> n \<and> n < off + w then bit v (n - off) else bit d n))"
  by (auto simp add: setBits_def bit_simps dest: bit_imp_le_length)

lemma getBits_setBits_same:
  "fits (off, w) \<Longrightarrow> getBits off w (setBits off w v d) = take_bit w v"
  by (rule bit_word_eqI) (auto simp add: fits_def getBits_def bit_setBits bit_simps)

lemma getBits_setBits_other:
  "apart (o1, w1) (o2, w2) \<Longrightarrow> getBits o1 w1 (setBits o2 w2 v d) = getBits o1 w1 d"
  by (rule bit_word_eqI)
    (auto simp add: apart_def getBits_def bit_setBits bit_simps dest: bit_imp_le_length)

lemma apart_sym: "apart f g \<Longrightarrow> apart g f"
  by (auto simp add: apart_def)

lemma wf_layout_fits:
  assumes "wf_layout P"
  shows
"fits (scoreOff P, scoreBits P)"
    and "fits (depthOff P, ttDepthBits P)"
    and "fits (dateOff P, ttDateBits P)"
    and "fits (isUpperBoundBit P, 1)"
    and "fits (isLowerBoundBit P, 1)"
    and "fits (isHardBoundBit P, 1)"
    and "fits (isWinLossScoreBit P, 1)"
  using assms by (simp_all add: wf_layout_def layoutFields_def)

lemma wf_layout_apart_fwd:
  assumes "wf_layout P"
  shows
"apart (scoreOff P, scoreBits P) (depthOff P, ttDepthBits P)"
    and "apart (scoreOff P, scoreBits P) (dateOff P, ttDateBits P)"
    and "apart (scoreOff P, scoreBits P) (isUpperBoundBit P, 1)"
    and "apart (scoreOff P, scoreBits P) (isLowerBoundBit P, 1)"
    and "apart (scoreOff P, scoreBits P) (isHardBoundBit P, 1)"
    and "apart (scoreOff P, scoreBits P) (isWinLossScoreBit P, 1)"
    and "apart (depthOff P, ttDepthBits P) (dateOff P, ttDateBits P)"
    and "apart (depthOff P, ttDepthBits P) (isUpperBoundBit P, 1)"
    and "apart (depthOff P, ttDepthBits P) (isLowerBoundBit P, 1)"
    and "apart (depthOff P, ttDepthBits P) (isHardBoundBit P, 1)"
    and "apart (depthOff P, ttDepthBits P) (isWinLossScoreBit P, 1)"
    and "apart (dateOff P, ttDateBits P) (isUpperBoundBit P, 1)"
    and "apart (dateOff P, ttDateBits P) (isLowerBoundBit P, 1)"
    and "apart (dateOff P, ttDateBits P) (isHardBoundBit P, 1)"
    and "apart (dateOff P, ttDateBits P) (isWinLossScoreBit P, 1)"
    and "apart (isUpperBoundBit P, 1) (isLowerBoundBit P, 1)"
    and "apart (isUpperBoundBit P, 1) (isHardBoundBit P, 1)"
    and "apart (isUpperBoundBit P, 1) (isWinLossScoreBit P, 1)"
    and "apart (isLowerBoundBit P, 1) (isHardBoundBit P, 1)"
    and "apart (isLowerBoundBit P, 1) (isWinLossScoreBit P, 1)"
    and "apart (isHardBoundBit P, 1) (isWinLossScoreBit P, 1)"
  using assms by (simp_all add: wf_layout_def layoutFields_def)

lemma wf_layout_apart_bwd:
  assumes "wf_layout P"
  shows
"apart (depthOff P, ttDepthBits P) (scoreOff P, scoreBits P)"
    and "apart (dateOff P, ttDateBits P) (scoreOff P, scoreBits P)"
    and "apart (isUpperBoundBit P, 1) (scoreOff P, scoreBits P)"
    and "apart (isLowerBoundBit P, 1) (scoreOff P, scoreBits P)"
    and "apart (isHardBoundBit P, 1) (scoreOff P, scoreBits P)"
    and "apart (isWinLossScoreBit P, 1) (scoreOff P, scoreBits P)"
    and "apart (dateOff P, ttDateBits P) (depthOff P, ttDepthBits P)"
    and "apart (isUpperBoundBit P, 1) (depthOff P, ttDepthBits P)"
    and "apart (isLowerBoundBit P, 1) (depthOff P, ttDepthBits P)"
    and "apart (isHardBoundBit P, 1) (depthOff P, ttDepthBits P)"
    and "apart (isWinLossScoreBit P, 1) (depthOff P, ttDepthBits P)"
    and "apart (isUpperBoundBit P, 1) (dateOff P, ttDateBits P)"
    and "apart (isLowerBoundBit P, 1) (dateOff P, ttDateBits P)"
    and "apart (isHardBoundBit P, 1) (dateOff P, ttDateBits P)"
    and "apart (isWinLossScoreBit P, 1) (dateOff P, ttDateBits P)"
    and "apart (isLowerBoundBit P, 1) (isUpperBoundBit P, 1)"
    and "apart (isHardBoundBit P, 1) (isUpperBoundBit P, 1)"
    and "apart (isWinLossScoreBit P, 1) (isUpperBoundBit P, 1)"
    and "apart (isHardBoundBit P, 1) (isLowerBoundBit P, 1)"
    and "apart (isWinLossScoreBit P, 1) (isLowerBoundBit P, 1)"
    and "apart (isWinLossScoreBit P, 1) (isHardBoundBit P, 1)"
  using wf_layout_apart_fwd [OF assms] by (simp_all add: apart_sym)

lemmas wf_layout_apart = wf_layout_apart_fwd wf_layout_apart_bwd

lemma score_field_value:
  fixes v :: cint
  assumes "0 < w" and "w \<le> 32"
  shows "signed_take_bit (w - 1) (ucast (take_bit w (ucast v :: u64)) :: cint)
    = signed_take_bit (w - 1) v"
  using assms
  by (intro bit_word_eqI) (auto simp add: bit_simps dest: bit_imp_le_length)

lemma signed_take_bit_take_bit_cint:
  fixes v :: cint
  assumes "0 < w"
  shows "signed_take_bit (w - Suc 0) (take_bit w v) = signed_take_bit (w - Suc 0) v"
  using assms
  by (intro bit_word_eqI) (auto simp add: bit_simps dest: bit_imp_le_length)

lemma unsigned_field_value:
  fixes v :: cint
  shows "(ucast (take_bit w (ucast v :: u64)) :: cint) = take_bit w v"
  by (intro bit_word_eqI) (auto simp add: bit_simps dest: bit_imp_le_length)

lemma flag_field_value:
  "(take_bit (Suc 0) (of_bool b :: u64) \<noteq> 0) = b"
  by (cases b) simp_all

lemmas field_defs =
  slot_score_def slot_depth_def slot_date_def isUpperBound_def isLowerBound_def
  isHardBound_def isWinLossScore_def set_score_def set_depth_def set_date_def
  set_isUpperBound_def set_isLowerBound_def set_isHardBound_def set_isWinLossScore_def

lemma fields_set_score:
  assumes "wf_layout P"
  shows
    "slot_score P (set_score P v s) = signed_take_bit (scoreBits P - 1) v"
    and "slot_depth P (set_score P v s) = (slot_depth P s)"
    and "slot_date P (set_score P v s) = (slot_date P s)"
    and "isUpperBound P (set_score P v s) = (isUpperBound P s)"
    and "isLowerBound P (set_score P v s) = (isLowerBound P s)"
    and "isHardBound P (set_score P v s) = (isHardBound P s)"
    and "isWinLossScore P (set_score P v s) = (isWinLossScore P s)"
    and "key (set_score P v s) = key s"
  using assms wf_layout_apart [OF assms] wf_layout_fits [OF assms]
  by (simp_all add: field_defs getBits_setBits_same getBits_setBits_other
      score_field_value unsigned_field_value flag_field_value wf_layout_def
      signed_take_bit_take_bit_cint)

lemma fields_set_depth:
  assumes "wf_layout P"
  shows
    "slot_score P (set_depth P v s) = (slot_score P s)"
    and "slot_depth P (set_depth P v s) = take_bit (ttDepthBits P) v"
    and "slot_date P (set_depth P v s) = (slot_date P s)"
    and "isUpperBound P (set_depth P v s) = (isUpperBound P s)"
    and "isLowerBound P (set_depth P v s) = (isLowerBound P s)"
    and "isHardBound P (set_depth P v s) = (isHardBound P s)"
    and "isWinLossScore P (set_depth P v s) = (isWinLossScore P s)"
    and "key (set_depth P v s) = key s"
  using assms wf_layout_apart [OF assms] wf_layout_fits [OF assms]
  by (simp_all add: field_defs getBits_setBits_same getBits_setBits_other
      score_field_value unsigned_field_value flag_field_value wf_layout_def
      signed_take_bit_take_bit_cint)

lemma fields_set_date:
  assumes "wf_layout P"
  shows
    "slot_score P (set_date P v s) = (slot_score P s)"
    and "slot_depth P (set_date P v s) = (slot_depth P s)"
    and "slot_date P (set_date P v s) = take_bit (ttDateBits P) v"
    and "isUpperBound P (set_date P v s) = (isUpperBound P s)"
    and "isLowerBound P (set_date P v s) = (isLowerBound P s)"
    and "isHardBound P (set_date P v s) = (isHardBound P s)"
    and "isWinLossScore P (set_date P v s) = (isWinLossScore P s)"
    and "key (set_date P v s) = key s"
  using assms wf_layout_apart [OF assms] wf_layout_fits [OF assms]
  by (simp_all add: field_defs getBits_setBits_same getBits_setBits_other
      score_field_value unsigned_field_value flag_field_value wf_layout_def
      signed_take_bit_take_bit_cint)

lemma fields_set_isUpperBound:
  assumes "wf_layout P"
  shows
    "slot_score P (set_isUpperBound P v s) = (slot_score P s)"
    and "slot_depth P (set_isUpperBound P v s) = (slot_depth P s)"
    and "slot_date P (set_isUpperBound P v s) = (slot_date P s)"
    and "isUpperBound P (set_isUpperBound P v s) = v"
    and "isLowerBound P (set_isUpperBound P v s) = (isLowerBound P s)"
    and "isHardBound P (set_isUpperBound P v s) = (isHardBound P s)"
    and "isWinLossScore P (set_isUpperBound P v s) = (isWinLossScore P s)"
    and "key (set_isUpperBound P v s) = key s"
  using assms wf_layout_apart [OF assms] wf_layout_fits [OF assms]
  by (simp_all add: field_defs getBits_setBits_same getBits_setBits_other
      score_field_value unsigned_field_value flag_field_value wf_layout_def
      signed_take_bit_take_bit_cint)

lemma fields_set_isLowerBound:
  assumes "wf_layout P"
  shows
    "slot_score P (set_isLowerBound P v s) = (slot_score P s)"
    and "slot_depth P (set_isLowerBound P v s) = (slot_depth P s)"
    and "slot_date P (set_isLowerBound P v s) = (slot_date P s)"
    and "isUpperBound P (set_isLowerBound P v s) = (isUpperBound P s)"
    and "isLowerBound P (set_isLowerBound P v s) = v"
    and "isHardBound P (set_isLowerBound P v s) = (isHardBound P s)"
    and "isWinLossScore P (set_isLowerBound P v s) = (isWinLossScore P s)"
    and "key (set_isLowerBound P v s) = key s"
  using assms wf_layout_apart [OF assms] wf_layout_fits [OF assms]
  by (simp_all add: field_defs getBits_setBits_same getBits_setBits_other
      score_field_value unsigned_field_value flag_field_value wf_layout_def
      signed_take_bit_take_bit_cint)

lemma fields_set_isHardBound:
  assumes "wf_layout P"
  shows
    "slot_score P (set_isHardBound P v s) = (slot_score P s)"
    and "slot_depth P (set_isHardBound P v s) = (slot_depth P s)"
    and "slot_date P (set_isHardBound P v s) = (slot_date P s)"
    and "isUpperBound P (set_isHardBound P v s) = (isUpperBound P s)"
    and "isLowerBound P (set_isHardBound P v s) = (isLowerBound P s)"
    and "isHardBound P (set_isHardBound P v s) = v"
    and "isWinLossScore P (set_isHardBound P v s) = (isWinLossScore P s)"
    and "key (set_isHardBound P v s) = key s"
  using assms wf_layout_apart [OF assms] wf_layout_fits [OF assms]
  by (simp_all add: field_defs getBits_setBits_same getBits_setBits_other
      score_field_value unsigned_field_value flag_field_value wf_layout_def
      signed_take_bit_take_bit_cint)

lemma fields_set_isWinLossScore:
  assumes "wf_layout P"
  shows
    "slot_score P (set_isWinLossScore P v s) = (slot_score P s)"
    and "slot_depth P (set_isWinLossScore P v s) = (slot_depth P s)"
    and "slot_date P (set_isWinLossScore P v s) = (slot_date P s)"
    and "isUpperBound P (set_isWinLossScore P v s) = (isUpperBound P s)"
    and "isLowerBound P (set_isWinLossScore P v s) = (isLowerBound P s)"
    and "isHardBound P (set_isWinLossScore P v s) = (isHardBound P s)"
    and "isWinLossScore P (set_isWinLossScore P v s) = v"
    and "key (set_isWinLossScore P v s) = key s"
  using assms wf_layout_apart [OF assms] wf_layout_fits [OF assms]
  by (simp_all add: field_defs getBits_setBits_same getBits_setBits_other
      score_field_value unsigned_field_value flag_field_value wf_layout_def
      signed_take_bit_take_bit_cint)

lemmas fields_set =
  fields_set_score fields_set_depth fields_set_date fields_set_isUpperBound
  fields_set_isLowerBound fields_set_isHardBound fields_set_isWinLossScore



lemma sint_signed_take_bit_cint:
  fixes w :: cint
  assumes "n < 32"
  shows "sint (signed_take_bit n w) = signed_take_bit n (sint w)"
proof (cases "n = 31")
  case True
  then show ?thesis
    by (intro bit_eqI) (auto simp add: bit_simps bit_sint_iff min_def not_less not_le)
next
  case False
  with assms have "n < 31"
    by simp
  then show ?thesis
    by (intro bit_eqI) (auto simp add: bit_simps bit_sint_iff min_def not_less not_le)
qed

lemma signed_take_bit_cint_self:
  fixes w :: cint
  assumes "n < 32" and "- (2 ^ n) \<le> sint w" and "sint w < 2 ^ n"
  shows "sint (signed_take_bit n w) = sint w"
  using assms by (simp add: sint_signed_take_bit_cint signed_take_bit_int_eq_self)

lemma take_bit_cint_self:
  fixes w :: cint
  assumes "0 \<le> sint w" and "sint w < 2 ^ n"
  shows "take_bit n w = w"
proof -
  have "sint w < 2 ^ 31"
    using sint_lt [of w] by simp
  then have "sint w < 2 ^ 32"
    by simp
  have "uint w = take_bit 32 (sint w)"
    by (simp add: uint_sint)
  also have "\<dots> = sint w"
    using assms(1) \<open>sint w < 2 ^ 32\<close> by (simp add: take_bit_int_eq_self)
  finally have "uint w < 2 ^ n"
    using assms(2) by simp
  then have "w AND mask n = w"
    by (simp only: mask_eq_iff)
  then show ?thesis
    by (simp add: take_bit_eq_mask)
qed

section \<open>Indexing the table\<close>


lemma bucket_index:
  assumes wf: "wf_table self" and j: "j < bucketLen"
  shows "unat ((h AND tt_mask (tt self)) + of_nat j) = unat (h AND tt_mask (tt self)) + j"
    and "unat (h AND tt_mask (tt self)) + j < length (slots (tt self))"
proof -
  let ?b = "h AND tt_mask (tt self)"
  have le: "unat ?b \<le> unat (tt_mask (tt self))"
    by (simp only: word_le_nat_alt [symmetric] word_and_le1)
  from wf have len: "length (slots (tt self)) = unat (tt_mask (tt self)) + bucketLen"
    and small: "length (slots (tt self)) \<le> 2 ^ 31"
    by (simp_all add: wf_table_def)
  from le len j show lt: "unat ?b + j < length (slots (tt self))"
    by simp
  have "unat (of_nat j :: u64) = j"
    using j by (simp add: unat_of_nat bucketLen_def)
  moreover have "unat ?b + j < 2 ^ LENGTH(64)"
    using lt small by simp
  ultimately have "unat ?b + unat (of_nat j :: u64) < 2 ^ LENGTH(64)"
    by simp
  then have "unat (?b + of_nat j) = unat ?b + unat (of_nat j :: u64)"
    by (simp only: unat_add_lem)
  with \<open>unat (of_nat j :: u64) = j\<close> show "unat (?b + of_nat j) = unat ?b + j"
    by simp
qed


lemma small_index:
  fixes x :: u64
  assumes "unat x < 2 ^ 31"
  shows "0 \<le>s (ucast x :: cint)" and "(scast (ucast x :: cint) :: u64) = x"
proof -
  from assms have "x < 2 ^ 31"
    by (simp add: word_less_nat_alt)
  then have tb: "take_bit 31 x = x"
    by (simp only: take_bit_eq_mask less_mask_eq)
  have nb: "\<not> bit x n" if "31 \<le> n" for n
    using tb that by (metis bit_take_bit_iff not_le)
  show "(scast (ucast x :: cint) :: u64) = x"
  proof (rule bit_word_eqI)
    fix n :: nat
    assume "n < LENGTH(64)"
    show "bit (scast (ucast x :: cint) :: u64) n = bit x n"
    proof (cases "n < 31")
      case True
      then show ?thesis
        by (simp add: bit_simps min_def)
    next
      case False
      then have "min 31 n = 31" by simp
      with False show ?thesis
        using \<open>n < LENGTH(64)\<close> by (simp add: bit_simps nb)
    qed
  qed
  have "\<not> bit (ucast x :: cint) 31"
    by (simp add: bit_simps nb)
  then show "0 \<le>s (ucast x :: cint)"
    by (simp add: word_sle_eq sint_uint bit_simps) 
qed


section \<open>The priority is the one of the specification\<close>

lemma unsigned_field_bound:
  fixes x :: u64
  assumes "w \<le> 30"
  shows "0 \<le> sint (ucast (getBits off w x) :: cint)"
    and "sint (ucast (getBits off w x) :: cint) < 2 ^ w"
    and "sint (ucast (getBits off w x) :: cint) = uint (ucast (getBits off w x) :: cint)"
proof -
  let ?c = "ucast (getBits off w x) :: cint"
  have "take_bit w ?c = ?c"
    by (rule bit_word_eqI) (auto simp add: getBits_def bit_simps)
  then have "uint ?c = take_bit w (uint ?c)"
    by (metis unsigned_take_bit_eq)
  then have ub: "uint ?c < 2 ^ w"
    by (metis take_bit_int_less_exp)
  have "(2 :: int) ^ w \<le> 2 ^ 31"
    using assms by (intro power_increasing) simp_all
  with ub have "uint ?c < 2 ^ 31"
    by linarith
  moreover have "- (2 ^ 31) \<le> uint ?c"
    by (rule order_trans [of _ 0]) simp_all
  ultimately have "signed_take_bit 31 (uint ?c) = uint ?c"
    by (intro signed_take_bit_int_eq_self)
  then show eq: "sint ?c = uint ?c"
    by (simp add: sint_uint)
  from eq show "0 \<le> sint ?c"
    by simp
  from eq ub show "sint ?c < 2 ^ w"
    by simp
qed


lemma sint_prioOf:
  assumes "wf_layout P"
  shows "sint (prioOf P nw s) = spec_prio P nw s"
    and "spec_prio P nw s < 2 ^ 30"
proof -
  let ?T = "ttDateBits P" and ?D = "ttDepthBits P"
  let ?d = "slot_date P s" and ?e = "slot_depth P s"
  let ?a = "(nw - ?d) AND ones ?T"
  from assms have TD: "?T + ?D \<le> 30"
    by (simp add: wf_layout_def)
  then have T: "?T \<le> 30" and D: "?D \<le> 30"
    by simp_all
  note d = unsigned_field_bound [OF T, of "dateOff P" "data s", folded slot_date_def]
  note e = unsigned_field_bound [OF D, of "depthOff P" "data s", folded slot_depth_def]
  have "uint ?a = uint (nw - ?d) AND mask (min 32 ?T)"
    by (simp only: ones_def unsigned_and_eq uint_mask_eq) simp
  also have "min 32 ?T = ?T"
    using T by simp
  also have "uint (nw - ?d) AND mask ?T = uint (nw - ?d) mod 2 ^ ?T"
    by (simp only: take_bit_eq_mask [symmetric] take_bit_eq_mod)
  also have "\<dots> = ((uint nw - uint ?d) mod 2 ^ 32) mod 2 ^ ?T"
    by (simp add: uint_word_ariths)
  also have "\<dots> = (uint nw - uint ?d) mod 2 ^ ?T"
    using T by (intro mod_mod_cancel le_imp_power_dvd) simp
  also have "uint nw = sint nw mod 2 ^ 32"
    by (simp add: uint_sint take_bit_eq_mod)
  also have "(sint nw mod 2 ^ 32 - uint ?d) mod 2 ^ ?T = (sint nw - uint ?d) mod 2 ^ ?T"
  proof -
    have "(sint nw mod 2 ^ 32 - uint ?d) mod 2 ^ ?T
      = ((sint nw mod 2 ^ 32) mod 2 ^ ?T - uint ?d) mod 2 ^ ?T"
      by (simp only: mod_diff_left_eq)
    also have "(sint nw mod 2 ^ 32) mod 2 ^ ?T = sint nw mod 2 ^ ?T"
      using T by (intro mod_mod_cancel le_imp_power_dvd) simp
    finally show ?thesis
      by (simp only: mod_diff_left_eq)
  qed
  finally have a: "uint ?a = spec_age P nw s"
    by (simp add: spec_age_def d(3))
  have a0: "0 \<le> spec_age P nw s" and a1: "spec_age P nw s < 2 ^ ?T"
    by (simp_all add: spec_age_def)
  let ?k = "- spec_age P nw s * 2 ^ ?D + sint ?e"
  have "prioOf P nw s = push_bit ?D (- word_of_int (uint ?a)) + word_of_int (uint ?e)"
    by (simp add: prioOf_def)
  also have "\<dots> = word_of_int ?k"
    by (simp add: a e(3) push_bit_eq_mult)
  finally have "sint (prioOf P nw s) = signed_take_bit 31 ?k"
    by (simp only: sint_sbintrunc') simp
  moreover have "spec_age P nw s * 2 ^ ?D < 2 ^ ?T * 2 ^ ?D"
    using a1 by (intro mult_strict_right_mono) simp_all
  then have "spec_age P nw s * 2 ^ ?D < 2 ^ (?T + ?D)"
    by (simp add: power_add)
  moreover have p30: "(2 :: int) ^ (?T + ?D) \<le> 2 ^ 30"
    using TD by (intro power_increasing) simp_all
  moreover have "(2 :: int) ^ ?D \<le> 2 ^ 30"
    using D by (intro power_increasing) simp_all
  moreover note e(1,2)
  moreover have "0 \<le> spec_age P nw s * 2 ^ ?D"
    using a0 by simp
  ultimately have lo: "- (2 ^ 31) \<le> ?k" and hi: "?k < 2 ^ 30"
    by simp_all
  from hi show "spec_prio P nw s < 2 ^ 30"
    by (simp add: spec_prio_def)
  from hi have "?k < 2 ^ 31"
    by simp
  with lo have "signed_take_bit 31 ?k = ?k"
    by (intro signed_take_bit_int_eq_self)
  with \<open>sint (prioOf P nw s) = signed_take_bit 31 ?k\<close>
  show "sint (prioOf P nw s) = spec_prio P nw s"
    by (simp add: spec_prio_def)
qed


section \<open>The loops over a bucket\<close>


lemma slotAt_bucket:
  assumes "wf_table self" and "j < bucketLen"
  shows "slotAt self ((h AND tt_mask (tt self)) + of_nat j)
    = Inr (slots (tt self) ! (unat (h AND tt_mask (tt self)) + j))"
  using bucket_index [OF assms, of h] by (simp add: slotAt_def)

lemma prio_index:
  fixes x :: u64
  assumes "unat x < length (slots (tt self))" and "length (slots (tt self)) \<le> 2 ^ 31"
  shows "prio P self (ucast x) = Inr (prioOf P (now (tt self)) (slots (tt self) ! unat x))"
proof -
  from assms have "unat x < 2 ^ 31"
    by simp
  from small_index [OF this] assms(1) show ?thesis
    by (simp add: prio_def slotAt_def prioOf_def Let_def)
qed

lemma prio_bucket:
  assumes "wf_table self" and "j < bucketLen"
  shows "prio P self (ucast ((h AND tt_mask (tt self)) + of_nat j))
    = Inr (prioOf P (now (tt self)) (slots (tt self) ! (unat (h AND tt_mask (tt self)) + j)))"
proof -
  from assms(1) have "length (slots (tt self)) \<le> 2 ^ 31"
    by (simp add: wf_table_def)
  with bucket_index [OF assms, of h] show ?thesis
    by (simp add: prio_index)
qed

lemma find_gen:
  assumes S: "\<And>k. k < bucketLen \<Longrightarrow> slotAt self (bucket + of_nat k) = Inr (S k)"
    and pr: "\<And>k. k < bucketLen \<Longrightarrow> prio P self (ucast (bucket + of_nat k)) = Inr (pr k)"
    and bound: "\<And>k. k < bucketLen \<Longrightarrow> pr k <s mx"
  shows "j \<le> bucketLen \<Longrightarrow> \<forall>k<j. key (S k) XOR data (S k) \<noteq> key slot \<Longrightarrow>
    (j = 0 \<and> i = - 1 \<and> iPrio = mx)
      \<or> (\<exists>i0<j. i = of_nat i0 \<and> iPrio = pr i0 \<and> (\<forall>k<j. sint (pr i0) \<le> sint (pr k))
          \<and> (\<forall>k<i0. sint (pr i0) < sint (pr k))) \<Longrightarrow>
    \<exists>r. ttWrite_find P self slot bucket j i iPrio = Inr (of_nat r)
      \<and> selected (\<lambda>k. key (S k) XOR data (S k) = key slot) (\<lambda>k. sint (pr k)) r"
proof (induction "bucketLen - j" arbitrary: j i iPrio)
  case 0
  then have j: "j = bucketLen"
    by simp
  with 0(4) obtain i0 where "i0 < bucketLen" "i = of_nat i0" "iPrio = pr i0"
    "\<forall>k<bucketLen. sint (pr i0) \<le> sint (pr k)" "\<forall>k<i0. sint (pr i0) < sint (pr k)"
    by (auto simp add: bucketLen_def)
  moreover have "ttWrite_find P self slot bucket j i iPrio = Inr i"
    using j by (subst ttWrite_find.simps) simp
  ultimately show ?case
    using 0(3) j by (auto simp add: selected_def)
next
  case (Suc n)
  then have j: "j < bucketLen"
    by simp
  let ?M = "\<lambda>k. key (S k) XOR data (S k) = key slot"
  show ?case
  proof (cases "?M j")
    case True
    have "ttWrite_find P self slot bucket j i iPrio = Inr (of_nat j)"
      using j True by (subst ttWrite_find.simps) (simp add: S)
    moreover have "selected ?M (\<lambda>k. sint (pr k)) j"
      using j True Suc.prems(2) by (auto simp add: selected_def)
    ultimately show ?thesis
      by blast
  next
    case False
    have nm: "\<forall>k<j + 1. \<not> ?M k"
      using False Suc.prems(2) by (auto simp add: less_Suc_eq)
    have n: "n = bucketLen - (j + 1)"
      using Suc.hyps(2) by simp
    have j1: "j + 1 \<le> bucketLen"
      using j by simp
    show ?thesis
    proof (cases "pr j <s iPrio")
      case True
      have step: "ttWrite_find P self slot bucket j i iPrio
        = ttWrite_find P self slot bucket (j + 1) (of_nat j) (pr j)"
        using j False True by (subst ttWrite_find.simps) (simp add: S pr)
      have "\<forall>k<j. sint (pr j) < sint (pr k)"
      proof (intro allI impI)
        fix k assume k: "k < j"
        from Suc.prems(3) show "sint (pr j) < sint (pr k)"
        proof
          assume "j = 0 \<and> i = - 1 \<and> iPrio = mx"
          with k show ?thesis by simp
        next
          assume "\<exists>i0<j. i = of_nat i0 \<and> iPrio = pr i0 \<and> (\<forall>k<j. sint (pr i0) \<le> sint (pr k))
            \<and> (\<forall>k<i0. sint (pr i0) < sint (pr k))"
          then obtain i0 where "iPrio = pr i0" "\<forall>k<j. sint (pr i0) \<le> sint (pr k)"
            by blast
          with True k show ?thesis
            by (auto simp add: word_sless_alt dest: spec [of _ k])
        qed
      qed
      then have inv: "(j + 1 = 0 \<and> (of_nat j :: cint) = - 1 \<and> pr j = mx)
        \<or> (\<exists>i0<j + 1. (of_nat j :: cint) = of_nat i0 \<and> pr j = pr i0
            \<and> (\<forall>k<j + 1. sint (pr i0) \<le> sint (pr k))
            \<and> (\<forall>k<i0. sint (pr i0) < sint (pr k)))"
        by (intro disjI2 exI [of _ j]) (auto simp add: less_Suc_eq less_imp_le)
      from Suc.hyps(1) [OF n j1 nm inv] step show ?thesis
        by simp
    next
      case False
      have step: "ttWrite_find P self slot bucket j i iPrio
        = ttWrite_find P self slot bucket (j + 1) i iPrio"
        using j \<open>\<not> ?M j\<close> False by (subst ttWrite_find.simps) (simp add: S pr)
      from Suc.prems(3) have "\<exists>i0<j. i = of_nat i0 \<and> iPrio = pr i0
        \<and> (\<forall>k<j. sint (pr i0) \<le> sint (pr k)) \<and> (\<forall>k<i0. sint (pr i0) < sint (pr k))"
      proof
        assume "j = 0 \<and> i = - 1 \<and> iPrio = mx"
        with False bound [OF j] show ?thesis by simp
      qed
      then obtain i0 where i0: "i0 < j" "i = of_nat i0" "iPrio = pr i0"
        "\<forall>k<j. sint (pr i0) \<le> sint (pr k)" "\<forall>k<i0. sint (pr i0) < sint (pr k)"
        by blast
      from False i0(3) have "sint (pr i0) \<le> sint (pr j)"
        by (simp add: word_sless_alt)
      with i0 have inv: "(j + 1 = 0 \<and> i = - 1 \<and> iPrio = mx)
        \<or> (\<exists>i0<j + 1. i = of_nat i0 \<and> iPrio = pr i0
            \<and> (\<forall>k<j + 1. sint (pr i0) \<le> sint (pr k))
            \<and> (\<forall>k<i0. sint (pr i0) < sint (pr k)))"
        by (intro disjI2 exI [of _ i0]) (auto simp add: less_Suc_eq)
      from Suc.hyps(1) [OF n j1 nm inv] step show ?thesis
        by simp
    qed
  qed
qed


lemma read_miss:
  assumes S: "\<And>k. k < bucketLen \<Longrightarrow> slotAt self (bucket + of_nat k) = Inr (S k)"
    and miss: "\<forall>k<bucketLen. key (S k) XOR data (S k) \<noteq> probe"
  shows "j \<le> bucketLen \<Longrightarrow> ttRead_probe P self probe bucket j = Inr \<lparr>key = probe, data = 0\<rparr>"
proof (induction "bucketLen - j" arbitrary: j)
  case 0
  then show ?case
    by (subst ttRead_probe.simps) simp
next
  case (Suc n)
  then have j: "j < bucketLen" and n: "n = bucketLen - (j + 1)" and j1: "j + 1 \<le> bucketLen"
    by simp_all
  from miss j have "key (S j) XOR data (S j) \<noteq> probe"
    by simp
  then have "ttRead_probe P self probe bucket j = ttRead_probe P self probe bucket (j + 1)"
    using j by (subst ttRead_probe.simps) (simp add: S Let_def)
  with Suc.hyps(1) [OF n j1] show ?case
    by simp
qed

lemma read_hit:
  assumes S: "\<And>k. k < bucketLen \<Longrightarrow> slotAt self (bucket + of_nat k) = Inr (S k)"
    and i: "i < bucketLen"
    and hit: "key (S i) XOR data (S i) = probe"
    and first: "\<forall>k<i. key (S k) XOR data (S k) \<noteq> probe"
  shows "j \<le> i \<Longrightarrow> ttRead_probe P self probe bucket j = Inr (ttRead_hit P self (S i))"
proof (induction "i - j" arbitrary: j)
  case 0
  then have "j = i"
    by simp
  then show ?case
    using i hit by (subst ttRead_probe.simps) (simp add: S Let_def ttRead_hit_def)
next
  case (Suc n)
  then have j: "j < i" and n: "n = i - (j + 1)" and j1: "j + 1 \<le> i"
    by simp_all
  from first j have "key (S j) XOR data (S j) \<noteq> probe"
    by simp
  moreover from j i have "j < bucketLen"
    by simp
  ultimately have "ttRead_probe P self probe bucket j = ttRead_probe P self probe bucket (j + 1)"
    by (subst ttRead_probe.simps) (simp add: S Let_def)
  with Suc.hyps(1) [OF n j1] show ?case
    by simp
qed


section \<open>The blocks of \<open>ttWrite\<close>\<close>


lemma ttWrite_fields_props:
  fixes P :: decls and self :: engine and slot :: ttSlot and depth score alpha beta :: cint
  assumes wf: "wf_layout P"
  defines "F \<equiv> ttWrite_fields P self slot depth score alpha beta"
  shows "key F = key slot"
    and "slot_score P F = signed_take_bit (scoreBits P - 1) score"
    and "slot_depth P F = take_bit (ttDepthBits P) depth"
    and "slot_date P F = take_bit (ttDateBits P) (now (tt self))"
    and "isUpperBound P F = (score \<le>s alpha)"
    and "isLowerBound P F = (beta \<le>s score)"
    and "\<not> isHardBound P F"
    and "\<not> isWinLossScore P F"
  by (simp_all add: F_def ttWrite_fields_def fields_set [OF wf])

lemma ttWrite_high_Next:
  assumes "wf_layout P" and "ttWrite_high P self score s = Next s'"
  shows "key s' = key s"
    and "isUpperBound P s' = isUpperBound P s"
    and "isLowerBound P s' = isLowerBound P s"
    and "slot_depth P s' = slot_depth P s"
    and "slot_date P s' = slot_date P s"
    and "maxEval P <s score \<Longrightarrow> isHardBound P s' = isLowerBound P s"
    and "\<not> maxEval P <s score \<Longrightarrow> s' = s"
    and "maxEval P <s score \<Longrightarrow> maxEval P + 1 <s score \<Longrightarrow> isWinLossScore P s'"
    and "maxEval P <s score \<Longrightarrow> maxEval P + 1 <s score \<Longrightarrow>
      slot_score P s' = signed_take_bit (scoreBits P - 1) (slot_score P s + ply self)"
    and "maxEval P <s score \<Longrightarrow> maxEval P + 1 <s score \<Longrightarrow> slot_score P s' <s maxMate P"
    and "maxEval P <s score \<Longrightarrow> \<not> maxEval P + 1 <s score \<Longrightarrow>
      isWinLossScore P s' = isWinLossScore P s \<and> slot_score P s' = slot_score P s"
    and "\<not> (maxEval P <s score \<and> maxEval P + 1 <s score
          \<and> halfmoveClock (board self) = 0 \<and> score \<le>s maxDtz P)"
  using assms(2)
  by (auto simp add: ttWrite_high_def Let_def fields_set [OF assms(1)] split: if_splits)

lemma ttWrite_low_Next:
  assumes "wf_layout P" and "ttWrite_low P self score s = Next s'"
  shows "key s' = key s"
    and "isUpperBound P s' = isUpperBound P s"
    and "isLowerBound P s' = isLowerBound P s"
    and "slot_depth P s' = slot_depth P s"
    and "slot_date P s' = slot_date P s"
    and "score <s minEval P \<Longrightarrow> isHardBound P s' = isUpperBound P s"
    and "\<not> score <s minEval P \<Longrightarrow> s' = s"
    and "score <s minEval P \<Longrightarrow> score <s minEval P - 1 \<Longrightarrow> isWinLossScore P s'"
    and "score <s minEval P \<Longrightarrow> score <s minEval P - 1 \<Longrightarrow>
      slot_score P s' = signed_take_bit (scoreBits P - 1) (slot_score P s - ply self)"
    and "score <s minEval P \<Longrightarrow> score <s minEval P - 1 \<Longrightarrow> minMate P \<le>s slot_score P s'"
    and "score <s minEval P \<Longrightarrow> \<not> score <s minEval P - 1 \<Longrightarrow>
      isWinLossScore P s' = isWinLossScore P s \<and> slot_score P s' = slot_score P s"
    and "\<not> (score <s minEval P \<and> score <s minEval P - 1
          \<and> halfmoveClock (board self) = 0 \<and> minDtz P \<le>s score)"
  using assms(2)
  by (auto simp add: ttWrite_low_def Let_def fields_set [OF assms(1)] split: if_splits)




lemma prio_below_maxInt:
  assumes "wf_decls P"
  shows "prioOf P nw s <s maxInt P"
proof -
  from assms have wf: "wf_layout P" and mx: "maxInt P = 2147483647"
    by (simp_all add: wf_decls_def)
  from sint_prioOf [OF wf, of nw s] have "sint (prioOf P nw s) < 2 ^ 30"
    by simp
  then show ?thesis
    by (simp add: word_sless_alt mx)
qed

lemma small_bucket_offset:
  assumes "i < bucketLen"
  shows "0 \<le>s (of_nat i :: cint)" and "(scast (of_nat i :: cint) :: u64) = of_nat i"
proof -
  from assms have "i = 0 \<or> i = 1 \<or> i = 2 \<or> i = 3"
    by (auto simp add: bucketLen_def)
  then show "0 \<le>s (of_nat i :: cint)" and "(scast (of_nat i :: cint) :: u64) = of_nat i"
    by (auto simp add: word_sle_eq)
qed

text \<open>The last part of \<open>ttWrite\<close>: the search of the bucket and the store.\<close>

lemma ttWrite_store:
  fixes P :: decls and self :: engine and s :: ttSlot and score :: cint
  assumes wfP: "wf_decls P" and wfT: "wf_table self"
  defines "b \<equiv> unat (key s AND tt_mask (tt self))"
  shows "\<exists>i. selected (\<lambda>k. key (slots (tt self) ! (b + k)) XOR data (slots (tt self) ! (b + k)) = key s)
        (\<lambda>k. spec_prio P (now (tt self)) (slots (tt self) ! (b + k))) i
    \<and> (let bucket = key s AND tt_mask (tt self) in
        (case ttWrite_find P self s bucket 0 (- 1) (maxInt P) of
           Inl e \<Rightarrow> Inl e
         | Inr i \<Rightarrow>
             if 0 \<le>s i then
               (case storeAt self (bucket + scast i) (s\<lparr>key := key s XOR data s\<rparr>) of
                  Inl e \<Rightarrow> Inl e
                | Inr self \<Rightarrow> Inr (score, self))
             else Inl AssertFailed))
      = Inr (score, self\<lparr>tt := (tt self)\<lparr>slots :=
          (slots (tt self))[b + i := s\<lparr>key := key s XOR data s\<rparr>]\<rparr>\<rparr>)"
proof -
  let ?bucket = "key s AND tt_mask (tt self)"
  let ?S = "\<lambda>k. slots (tt self) ! (b + k)"
  let ?pr = "\<lambda>k. prioOf P (now (tt self)) (?S k)"
  from wfP have wfL: "wf_layout P"
    by (simp add: wf_decls_def)
  have S: "\<And>k. k < bucketLen \<Longrightarrow> slotAt self (?bucket + of_nat k) = Inr (?S k)"
    unfolding b_def by (rule slotAt_bucket [OF wfT])
  have pr: "\<And>k. k < bucketLen \<Longrightarrow> prio P self (ucast (?bucket + of_nat k)) = Inr (?pr k)"
    unfolding b_def by (rule prio_bucket [OF wfT])
  have bound: "\<And>k. k < bucketLen \<Longrightarrow> ?pr k <s maxInt P"
    by (rule prio_below_maxInt [OF wfP])
  from find_gen [of self ?bucket ?S P ?pr "maxInt P" 0 s "- 1" "maxInt P", OF S pr bound]
  obtain i where find: "ttWrite_find P self s ?bucket 0 (- 1) (maxInt P) = Inr (of_nat i)"
    and sel: "selected (\<lambda>k. key (?S k) XOR data (?S k) = key s) (\<lambda>k. sint (?pr k)) i"
    by auto
  from sel have i: "i < bucketLen"
    by (simp add: selected_def)
  from sel have sel': "selected (\<lambda>k. key (?S k) XOR data (?S k) = key s)
      (\<lambda>k. spec_prio P (now (tt self)) (?S k)) i"
    by (simp add: sint_prioOf [OF wfL])
  from bucket_index [OF wfT i, of "key s"]
  have "storeAt self (?bucket + of_nat i) (s\<lparr>key := key s XOR data s\<rparr>)
    = Inr (self\<lparr>tt := (tt self)\<lparr>slots :=
          (slots (tt self))[b + i := s\<lparr>key := key s XOR data s\<rparr>]\<rparr>\<rparr>)"
    by (simp add: storeAt_def b_def)
  with find small_bucket_offset [OF i] sel' show ?thesis
    by (intro exI [of _ i]) (simp add: Let_def)
qed





lemma ttWrite_proceeds:
  fixes P :: decls and self :: engine and slot s1 s2 :: ttSlot
    and depth score alpha beta :: cint
  assumes wfP: "wf_decls P" and wfT: "wf_table self"
    and np: "\<not> (isHardBound P slot
        \<and> ((isLowerBound P slot \<and> score \<le>s slot_score P slot)
          \<or> (isUpperBound P slot \<and> slot_score P slot \<le>s score)))"
    and high: "ttWrite_high P self score (ttWrite_fields P self slot depth score alpha beta)
        = Next s1"
    and low: "ttWrite_low P self score s1 = Next s2"
  defines "b \<equiv> unat (key slot AND tt_mask (tt self))"
  shows "\<exists>i. selected
        (\<lambda>k. key (slots (tt self) ! (b + k)) XOR data (slots (tt self) ! (b + k)) = key slot)
        (\<lambda>k. spec_prio P (now (tt self)) (slots (tt self) ! (b + k))) i
      \<and> ttWrite P self slot depth score alpha beta
        = Inr (score, self\<lparr>tt := (tt self)\<lparr>slots :=
            (slots (tt self))[b + i := s2\<lparr>key := key slot XOR data s2\<rparr>]\<rparr>\<rparr>)"
proof -
  from wfP have wfL: "wf_layout P"
    by (simp add: wf_decls_def)
  have k: "key s2 = key slot"
    using ttWrite_low_Next(1) [OF wfL low] ttWrite_high_Next(1) [OF wfL high]
      ttWrite_fields_props(1) [OF wfL]
    by simp
  have "ttWrite P self slot depth score alpha beta =
    (let bucket = key s2 AND tt_mask (tt self) in
        (case ttWrite_find P self s2 bucket 0 (- 1) (maxInt P) of
           Inl e \<Rightarrow> Inl e
         | Inr i \<Rightarrow>
             if 0 \<le>s i then
               (case storeAt self (bucket + scast i) (s2\<lparr>key := key s2 XOR data s2\<rparr>) of
                  Inl e \<Rightarrow> Inl e
                | Inr self \<Rightarrow> Inr (score, self))
             else Inl AssertFailed))"
    by (simp only: ttWrite_def np if_False high low flow.case)
  with ttWrite_store [OF wfP wfT, of s2 score] show ?thesis
    by (simp add: k b_def)
qed




lemma ttWrite_high_Return:
  assumes "ttWrite_high P self score s = Return r"
  shows "maxEval P <s score \<and> maxEval P + 1 <s score
      \<and> halfmoveClock (board self) = 0 \<and> score \<le>s maxDtz P"
  using assms by (auto simp add: ttWrite_high_def Let_def split: if_splits)

lemma ttWrite_low_Return:
  assumes "ttWrite_low P self score s = Return r"
  shows "score <s minEval P \<and> score <s minEval P - 1
      \<and> halfmoveClock (board self) = 0 \<and> minDtz P \<le>s score"
  using assms by (auto simp add: ttWrite_low_def Let_def split: if_splits)

text \<open>A write that returns, and neither by the first rule nor by a refusal, went through
  both correction blocks.\<close>

lemma ttWrite_returned:
  assumes np: "\<not> (isHardBound P slot
        \<and> ((isLowerBound P slot \<and> score \<le>s slot_score P slot)
          \<or> (isUpperBound P slot \<and> slot_score P slot \<le>s score)))"
    and nh: "\<not> (maxEval P <s score \<and> maxEval P + 1 <s score
        \<and> halfmoveClock (board self) = 0 \<and> score \<le>s maxDtz P)"
    and nl: "\<not> (score <s minEval P \<and> score <s minEval P - 1
        \<and> halfmoveClock (board self) = 0 \<and> minDtz P \<le>s score)"
    and ret: "ttWrite P self slot depth score alpha beta = Inr (r, self')"
  shows "\<exists>s1 s2. ttWrite_high P self score (ttWrite_fields P self slot depth score alpha beta)
        = Next s1 \<and> ttWrite_low P self score s1 = Next s2"
proof (cases "ttWrite_high P self score (ttWrite_fields P self slot depth score alpha beta)")
  case (Return x)
  from ttWrite_high_Return [OF this] nh show ?thesis
    by simp
next
  case (Fail e)
  have "ttWrite P self slot depth score alpha beta = Inl e"
    by (simp only: ttWrite_def np if_False Fail flow.case)
  with ret show ?thesis
    by simp
next
  case high: (Next s1)
  show ?thesis
  proof (cases "ttWrite_low P self score s1")
    case (Return x)
    from ttWrite_low_Return [OF this] nl show ?thesis
      by simp
  next
    case (Fail e)
    have "ttWrite P self slot depth score alpha beta = Inl e"
      by (simp only: ttWrite_def np if_False high Fail flow.case)
    with ret show ?thesis
      by simp
  next
    case (Next s2)
    with high show ?thesis
      by simp
  qed
qed


section \<open>Reading what was written\<close>


lemma key_update_fields:
  "slot_score P (s\<lparr>key := k\<rparr>) = slot_score P s"
  "slot_depth P (s\<lparr>key := k\<rparr>) = slot_depth P s"
  "slot_date P (s\<lparr>key := k\<rparr>) = slot_date P s"
  "isUpperBound P (s\<lparr>key := k\<rparr>) = isUpperBound P s"
  "isLowerBound P (s\<lparr>key := k\<rparr>) = isLowerBound P s"
  "isHardBound P (s\<lparr>key := k\<rparr>) = isHardBound P s"
  "isWinLossScore P (s\<lparr>key := k\<rparr>) = isWinLossScore P s"
  by (simp_all add: field_defs)

lemma ttRead_hit_props:
  fixes P :: decls and self :: engine and w :: ttSlot
  assumes wf: "wf_layout P"
  defines "res \<equiv> ttRead_hit P self w"
  shows "key res = key w XOR data w"
    and "isUpperBound P res = isUpperBound P w"
    and "isLowerBound P res = isLowerBound P w"
    and "isHardBound P res = isHardBound P w"
    and "isWinLossScore P res = isWinLossScore P w"
    and "slot_depth P res = slot_depth P w"
    and "isWinLossScore P w \<Longrightarrow> slot_score P res
      = signed_take_bit (scoreBits P - 1)
          (slot_score P w
            + (if 0 \<le>s slot_score P w then - (plyNumber (board self) - rootPlyNumber self)
               else plyNumber (board self) - rootPlyNumber self))"
    and "\<not> isWinLossScore P w \<Longrightarrow> slot_score P res = slot_score P w"
  by (simp_all add: res_def ttRead_hit_def Let_def key_update_fields fields_set [OF wf])

text \<open>Reading after a store into the selected slot of the bucket finds the stored slot.\<close>

lemma ttRead_after_store:
  fixes P :: decls and self later :: engine and w :: ttSlot
  assumes wfT: "wf_table self"
  defines "b \<equiv> unat ((hash (board self) XOR baseHash (tt self)) AND tt_mask (tt self))"
  assumes sel: "selected
        (\<lambda>k. key (slots (tt self) ! (b + k)) XOR data (slots (tt self) ! (b + k))
            = hash (board self) XOR baseHash (tt self)) pr i"
    and w: "key w XOR data w = hash (board self) XOR baseHash (tt self)"
    and later: "tt later = (tt self)\<lparr>slots := (slots (tt self))[b + i := w]\<rparr>"
      "hash (board later) = hash (board self)"
  shows "ttRead P later = Inr (ttRead_hit P later w)"
proof -
  let ?probe = "hash (board self) XOR baseHash (tt self)"
  let ?bucket = "?probe AND tt_mask (tt self)"
  let ?S = "\<lambda>k. slots (tt self) ! (b + k)"
  let ?S' = "\<lambda>k. if k = i then w else ?S k"
  from sel have i: "i < bucketLen"
    by (simp add: selected_def)
  from wfT later(1) have wfT': "wf_table later"
    by (simp add: wf_table_def)
  have mask: "tt_mask (tt later) = tt_mask (tt self)" and base: "baseHash (tt later) = baseHash (tt self)"
    by (simp_all add: later(1))
  have S': "slotAt later (?bucket + of_nat k) = Inr (?S' k)" if "k < bucketLen" for k
  proof -
    from bucket_index [OF wfT that, of ?probe] bucket_index [OF wfT i, of ?probe]
    show ?thesis
      using slotAt_bucket [OF wfT' that, of ?probe]
      by (simp add: mask later(1) b_def)
  qed
  have first: "\<forall>k<i. key (?S' k) XOR data (?S' k) \<noteq> ?probe"
    using sel by (auto simp add: selected_def split: if_splits)
  have hit: "key (?S' i) XOR data (?S' i) = ?probe"
    using w by simp
  from read_hit [of later ?bucket ?S' i ?probe 0 P, OF S' i hit first]
  show ?thesis
    by (simp add: ttRead_def Let_def later(2) mask base)
qed

section \<open>Mate and DTZ scores\<close>


lemma scoreFits_int:
  assumes "wf_layout P" and "scoreFits P x"
  shows "- (2 ^ 31) \<le> x" and "x < 2 ^ 31"
proof -
  from assms(1) have "scoreBits P \<le> 32"
    by (simp add: wf_layout_def)
  then have "scoreBits P - 1 \<le> 31"
    by arith
  then have "(2 :: int) ^ (scoreBits P - 1) \<le> 2 ^ 31"
    by (intro power_increasing) simp_all
  with assms(2) show "- (2 ^ 31) \<le> x" and "x < 2 ^ 31"
    by (simp_all add: scoreFits_def)
qed

lemma sint_score_field:
  fixes v :: cint
  assumes "wf_layout P" and "scoreFits P (sint v)"
  shows "sint (signed_take_bit (scoreBits P - 1) v) = sint v"
proof -
  from assms(1) have "0 < scoreBits P" and "scoreBits P \<le> 32"
    by (simp_all add: wf_layout_def)
  then have "scoreBits P - 1 < 32"
    by arith
  with assms(2) show ?thesis
    by (intro signed_take_bit_cint_self) (simp_all add: scoreFits_def)
qed

lemma sint_add_fits:
  fixes a b :: cint
  assumes "wf_layout P" and "scoreFits P (sint a + sint b)"
  shows "sint (a + b) = sint a + sint b"
proof -
  from scoreFits_int [OF assms] have "signed_take_bit 31 (sint a + sint b) = sint a + sint b"
    by (intro signed_take_bit_int_eq_self)
  then show ?thesis
    by (simp add: sint_word_ariths)
qed

lemma sint_diff_fits:
  fixes a b :: cint
  assumes "wf_layout P" and "scoreFits P (sint a - sint b)"
  shows "sint (a - b) = sint a - sint b"
proof -
  from scoreFits_int [OF assms] have "signed_take_bit 31 (sint a - sint b) = sint a - sint b"
    by (intro signed_take_bit_int_eq_self)
  then show ?thesis
    by (simp add: sint_word_ariths)
qed

lemma ttWrite_refuse_high:
  assumes np: "\<not> (isHardBound P slot
        \<and> ((isLowerBound P slot \<and> score \<le>s slot_score P slot)
          \<or> (isUpperBound P slot \<and> slot_score P slot \<le>s score)))"
    and c: "maxEval P <s score" "maxEval P + 1 <s score" "halfmoveClock (board self) = 0"
      "score \<le>s maxDtz P"
  shows "ttWrite P self slot depth score alpha beta = Inr (score, self)"
proof -
  have "ttWrite_high P self score (ttWrite_fields P self slot depth score alpha beta)
      = Return score"
    using c by (simp add: ttWrite_high_def)
  then show ?thesis
    by (simp only: ttWrite_def np if_False flow.case)
qed

lemma ttWrite_refuse_low:
  assumes wfP: "wf_decls P"
    and np: "\<not> (isHardBound P slot
        \<and> ((isLowerBound P slot \<and> score \<le>s slot_score P slot)
          \<or> (isUpperBound P slot \<and> slot_score P slot \<le>s score)))"
    and c: "score <s minEval P" "score <s minEval P - 1" "halfmoveClock (board self) = 0"
      "minDtz P \<le>s score"
  shows "ttWrite P self slot depth score alpha beta = Inr (score, self)"
proof -
  let ?F = "ttWrite_fields P self slot depth score alpha beta"
  from wfP c(1) have "\<not> maxEval P <s score"
    by (simp add: wf_decls_def word_sless_alt word_sle_eq)
  then have high: "ttWrite_high P self score ?F = Next ?F"
    by (simp add: ttWrite_high_def)
  have low: "ttWrite_low P self score ?F = Return score"
    using c by (simp add: ttWrite_low_def)
  show ?thesis
    by (simp only: ttWrite_def np if_False high low flow.case)
qed


lemma ttWrite_stored_high:
  fixes P :: decls and self self' :: engine and slot :: ttSlot
    and depth score alpha beta r :: cint
  assumes wfP: "wf_decls P" and wfT: "wf_table self"
    and np: "\<not> (isHardBound P slot
        \<and> ((isLowerBound P slot \<and> score \<le>s slot_score P slot)
          \<or> (isUpperBound P slot \<and> slot_score P slot \<le>s score)))"
    and gt: "maxEval P <s score"
    and nh: "\<not> (maxEval P + 1 <s score \<and> halfmoveClock (board self) = 0
        \<and> score \<le>s maxDtz P)"
    and ret: "ttWrite P self slot depth score alpha beta = Inr (r, self')"
  shows "\<exists>i w. i < bucketLen \<and> r = score
      \<and> self' = self\<lparr>tt := (tt self)\<lparr>slots :=
          (slots (tt self))[unat (key slot AND tt_mask (tt self)) + i := w]\<rparr>\<rparr>
      \<and> isHardBound P w = (beta \<le>s score) \<and> isLowerBound P w = (beta \<le>s score)
      \<and> (maxEval P + 1 <s score \<longrightarrow>
          isWinLossScore P w
          \<and> slot_score P w = signed_take_bit (scoreBits P - 1)
              (signed_take_bit (scoreBits P - 1) score + ply self)
          \<and> (scoreFits P (sint score) \<and> scoreFits P (sint score + sint (ply self)) \<longrightarrow>
              sint (slot_score P w) = sint score + sint (ply self)))"
proof -
  from wfP have wfL: "wf_layout P"
    by (simp add: wf_decls_def)
  let ?F = "ttWrite_fields P self slot depth score alpha beta"
  note F = ttWrite_fields_props [OF wfL, of self slot depth score alpha beta]
  from wfP gt have nlt: "\<not> score <s minEval P"
    by (simp add: wf_decls_def word_sless_alt word_sle_eq)
  then have nl: "\<not> (score <s minEval P \<and> score <s minEval P - 1
        \<and> halfmoveClock (board self) = 0 \<and> minDtz P \<le>s score)"
    by simp
  from nh have nh': "\<not> (maxEval P <s score \<and> maxEval P + 1 <s score
        \<and> halfmoveClock (board self) = 0 \<and> score \<le>s maxDtz P)"
    by simp
  from ttWrite_returned [OF np nh' nl ret] obtain s1 s2
    where high: "ttWrite_high P self score ?F = Next s1"
      and low: "ttWrite_low P self score s1 = Next s2"
    by blast
  from ttWrite_low_Next(7) [OF wfL low nlt] have s2: "s2 = s1" .
  let ?w = "s1\<lparr>key := key slot XOR data s1\<rparr>"
  from ttWrite_proceeds [OF wfP wfT np high low] ret obtain i
    where sel: "selected
        (\<lambda>k. key (slots (tt self) ! (unat (key slot AND tt_mask (tt self)) + k))
            XOR data (slots (tt self) ! (unat (key slot AND tt_mask (tt self)) + k)) = key slot)
        (\<lambda>k. spec_prio P (now (tt self))
            (slots (tt self) ! (unat (key slot AND tt_mask (tt self)) + k))) i"
      and r: "r = score"
      and self': "self' = self\<lparr>tt := (tt self)\<lparr>slots :=
          (slots (tt self))[unat (key slot AND tt_mask (tt self)) + i := ?w]\<rparr>\<rparr>"
    by (auto simp add: s2)
  from sel have i: "i < bucketLen"
    by (simp add: selected_def)
  have hard: "isHardBound P ?w = (beta \<le>s score)"
    using ttWrite_high_Next(6) [OF wfL high gt] F(6) by (simp add: key_update_fields)
  have lower: "isLowerBound P ?w = (beta \<le>s score)"
    using ttWrite_high_Next(3) [OF wfL high] F(6) by (simp add: key_update_fields)
  have mate: "isWinLossScore P ?w
      \<and> slot_score P ?w = signed_take_bit (scoreBits P - 1)
          (signed_take_bit (scoreBits P - 1) score + ply self)
      \<and> (scoreFits P (sint score) \<and> scoreFits P (sint score + sint (ply self)) \<longrightarrow>
          sint (slot_score P ?w) = sint score + sint (ply self))"
    if gt1: "maxEval P + 1 <s score"
  proof -
    have wl: "isWinLossScore P ?w"
      using ttWrite_high_Next(8) [OF wfL high gt gt1] by (simp add: key_update_fields)
    have sc: "slot_score P ?w = signed_take_bit (scoreBits P - 1)
        (signed_take_bit (scoreBits P - 1) score + ply self)"
      using ttWrite_high_Next(9) [OF wfL high gt gt1] F(2) by (simp add: key_update_fields)
    have "sint (slot_score P ?w) = sint score + sint (ply self)"
      if fits: "scoreFits P (sint score)" "scoreFits P (sint score + sint (ply self))"
    proof -
      have a: "sint (signed_take_bit (scoreBits P - 1) score) = sint score"
        by (rule sint_score_field [OF wfL fits(1)])
      with fits(2) have b: "sint (signed_take_bit (scoreBits P - 1) score + ply self)
          = sint score + sint (ply self)"
        by (simp add: sint_add_fits [OF wfL])
      from fits(2) b
      have "scoreFits P (sint (signed_take_bit (scoreBits P - 1) score + ply self))"
        by simp
      from sint_score_field [OF wfL this] b sc show ?thesis
        by simp
    qed
    with wl sc show ?thesis
      by simp
  qed
  from i r self' hard lower mate show ?thesis
    by blast
qed


lemma ttWrite_stored_low:
  fixes P :: decls and self self' :: engine and slot :: ttSlot
    and depth score alpha beta r :: cint
  assumes wfP: "wf_decls P" and wfT: "wf_table self"
    and np: "\<not> (isHardBound P slot
        \<and> ((isLowerBound P slot \<and> score \<le>s slot_score P slot)
          \<or> (isUpperBound P slot \<and> slot_score P slot \<le>s score)))"
    and lt: "score <s minEval P"
    and nl: "\<not> (score <s minEval P - 1 \<and> halfmoveClock (board self) = 0
        \<and> minDtz P \<le>s score)"
    and ret: "ttWrite P self slot depth score alpha beta = Inr (r, self')"
  shows "\<exists>i w. i < bucketLen \<and> r = score
      \<and> self' = self\<lparr>tt := (tt self)\<lparr>slots :=
          (slots (tt self))[unat (key slot AND tt_mask (tt self)) + i := w]\<rparr>\<rparr>
      \<and> isHardBound P w = (score \<le>s alpha) \<and> isUpperBound P w = (score \<le>s alpha)
      \<and> (score <s minEval P - 1 \<longrightarrow>
          isWinLossScore P w
          \<and> slot_score P w = signed_take_bit (scoreBits P - 1)
              (signed_take_bit (scoreBits P - 1) score - ply self)
          \<and> (scoreFits P (sint score) \<and> scoreFits P (sint score - sint (ply self)) \<longrightarrow>
              sint (slot_score P w) = sint score - sint (ply self)))"
proof -
  from wfP have wfL: "wf_layout P"
    by (simp add: wf_decls_def)
  let ?F = "ttWrite_fields P self slot depth score alpha beta"
  note F = ttWrite_fields_props [OF wfL, of self slot depth score alpha beta]
  from wfP lt have ngt: "\<not> maxEval P <s score"
    by (simp add: wf_decls_def word_sless_alt word_sle_eq)
  then have nh: "\<not> (maxEval P <s score \<and> maxEval P + 1 <s score
        \<and> halfmoveClock (board self) = 0 \<and> score \<le>s maxDtz P)"
    by simp
  from nl have nl': "\<not> (score <s minEval P \<and> score <s minEval P - 1
        \<and> halfmoveClock (board self) = 0 \<and> minDtz P \<le>s score)"
    by simp
  from ttWrite_returned [OF np nh nl' ret] obtain s1 s2
    where high: "ttWrite_high P self score ?F = Next s1"
      and low: "ttWrite_low P self score s1 = Next s2"
    by blast
  from ttWrite_high_Next(7) [OF wfL high ngt] have s1: "s1 = ?F" .
  let ?w = "s2\<lparr>key := key slot XOR data s2\<rparr>"
  from ttWrite_proceeds [OF wfP wfT np high low] ret obtain i
    where sel: "selected
        (\<lambda>k. key (slots (tt self) ! (unat (key slot AND tt_mask (tt self)) + k))
            XOR data (slots (tt self) ! (unat (key slot AND tt_mask (tt self)) + k)) = key slot)
        (\<lambda>k. spec_prio P (now (tt self))
            (slots (tt self) ! (unat (key slot AND tt_mask (tt self)) + k))) i"
      and r: "r = score"
      and self': "self' = self\<lparr>tt := (tt self)\<lparr>slots :=
          (slots (tt self))[unat (key slot AND tt_mask (tt self)) + i := ?w]\<rparr>\<rparr>"
    by auto
  from sel have i: "i < bucketLen"
    by (simp add: selected_def)
  have hard: "isHardBound P ?w = (score \<le>s alpha)"
    using ttWrite_low_Next(6) [OF wfL low lt] F(5) by (simp add: key_update_fields s1)
  have upper: "isUpperBound P ?w = (score \<le>s alpha)"
    using ttWrite_low_Next(2) [OF wfL low] F(5) by (simp add: key_update_fields s1)
  have mate: "isWinLossScore P ?w
      \<and> slot_score P ?w = signed_take_bit (scoreBits P - 1)
          (signed_take_bit (scoreBits P - 1) score - ply self)
      \<and> (scoreFits P (sint score) \<and> scoreFits P (sint score - sint (ply self)) \<longrightarrow>
          sint (slot_score P ?w) = sint score - sint (ply self))"
    if lt1: "score <s minEval P - 1"
  proof -
    have wl: "isWinLossScore P ?w"
      using ttWrite_low_Next(8) [OF wfL low lt lt1] by (simp add: key_update_fields)
    have sc: "slot_score P ?w = signed_take_bit (scoreBits P - 1)
        (signed_take_bit (scoreBits P - 1) score - ply self)"
      using ttWrite_low_Next(9) [OF wfL low lt lt1] F(2) by (simp add: key_update_fields s1)
    have "sint (slot_score P ?w) = sint score - sint (ply self)"
      if fits: "scoreFits P (sint score)" "scoreFits P (sint score - sint (ply self))"
    proof -
      have a: "sint (signed_take_bit (scoreBits P - 1) score) = sint score"
        by (rule sint_score_field [OF wfL fits(1)])
      with fits(2) have b: "sint (signed_take_bit (scoreBits P - 1) score - ply self)
          = sint score - sint (ply self)"
        by (simp add: sint_diff_fits [OF wfL])
      from fits(2) b
      have "scoreFits P (sint (signed_take_bit (scoreBits P - 1) score - ply self))"
        by simp
      from sint_score_field [OF wfL this] b sc show ?thesis
        by simp
    qed
    with wl sc show ?thesis
      by simp
  qed
  from i r self' hard upper mate show ?thesis
    by blast
qed

section \<open>The loops of \<open>ttSetSize\<close>\<close>


lemma newSize_loop:
  fixes bytes newSize newMask :: u64
  assumes "unat newSize = 64 * 2 ^ k" and "unat newMask + 4 = 4 * 2 ^ k"
    and "unat newSize \<le> unat bytes"
  shows "\<exists>k' ns nm. ttSetSize_newSize bytes newSize newMask = Some (ns, nm)
      \<and> k \<le> k' \<and> unat ns = 64 * 2 ^ k' \<and> unat nm + 4 = 4 * 2 ^ k'
      \<and> unat ns \<le> unat bytes \<and> unat bytes < 2 * unat ns"
  using assms
proof (induction "unat bytes - unat newSize" arbitrary: newSize newMask k rule: less_induct)
  case less
  have sub: "unat (bytes - newSize) = unat bytes - unat newSize"
    using less.prems(3) by (simp add: unat_sub word_le_nat_alt)
  show ?case
  proof (cases "newSize \<le> bytes - newSize")
    case False
    then have "unat bytes < 2 * unat newSize"
      using sub less.prems(3) by (simp add: word_le_nat_alt)
    moreover have "ttSetSize_newSize bytes newSize newMask = Some (newSize, newMask)"
      using False by (subst ttSetSize_newSize.simps) simp
    ultimately show ?thesis
      using less.prems by blast
  next
    case True
    then have le2: "2 * unat newSize \<le> unat bytes"
      using sub less.prems(3) by (simp add: word_le_nat_alt)
    have "unat bytes < 2 ^ 64"
      using unsigned_less [of bytes] by simp
    with le2 have "unat newSize + unat newSize < 2 ^ LENGTH(64)"
      by simp
    then have ns: "unat (newSize + newSize) = unat newSize + unat newSize"
      by (simp only: unat_add_lem)
    have pos: "0 < unat newSize"
      using less.prems(1) by simp
    have m4: "unat newMask + 4 \<le> unat newSize"
      using less.prems(1,2) by simp
    have "unat (push_bit 1 newMask) = 2 * unat newMask"
    proof -
      have "2 * unat newMask < 2 ^ 64"
        using m4 le2 \<open>unat bytes < 2 ^ 64\<close> by simp
      then show ?thesis
        by (simp add: push_bit_eq_mult unat_word_ariths)
    qed
    moreover have "2 * unat newMask + 4 < 2 ^ 64"
      using m4 le2 \<open>unat bytes < 2 ^ 64\<close> by simp
    ultimately have nm: "unat (push_bit 1 newMask + of_nat bucketLen) = 2 * unat newMask + 4"
      by (simp add: unat_word_ariths bucketLen_def)
    have step: "ttSetSize_newSize bytes newSize newMask
        = ttSetSize_newSize bytes (newSize + newSize) (push_bit 1 newMask + of_nat bucketLen)"
      using True by (subst ttSetSize_newSize.simps) simp
    have "unat bytes - unat (newSize + newSize) < unat bytes - unat newSize"
      using ns pos le2 by simp
    moreover have "unat (newSize + newSize) = 64 * 2 ^ Suc k"
      using ns less.prems(1) by simp
    moreover have "unat (push_bit 1 newMask + of_nat bucketLen) + 4 = 4 * 2 ^ Suc k"
      using nm less.prems(2) by simp
    moreover have "unat (newSize + newSize) \<le> unat bytes"
      using ns le2 by simp
    ultimately obtain k' n' m' where
      "ttSetSize_newSize bytes (newSize + newSize) (push_bit 1 newMask + of_nat bucketLen)
        = Some (n', m')"
      "Suc k \<le> k'" "unat n' = 64 * 2 ^ k'" "unat m' + 4 = 4 * 2 ^ k'"
      "unat n' \<le> unat bytes" "unat bytes < 2 * unat n'"
      using less.hyps by blast
    with step show ?thesis
      by (intro exI [of _ k'] exI [of _ n'] exI [of _ m']) simp
  qed
qed

lemma unat_and_mask:
  fixes i :: u64
  shows "unat (i AND mask n) = unat i mod 2 ^ n"
proof -
  have "unat (i AND mask n) = unat (take_bit n i)"
    by (simp only: take_bit_eq_mask)
  also have "\<dots> = take_bit n (unat i)"
    by (rule unsigned_take_bit_eq)
  also have "\<dots> = unat i mod 2 ^ n"
    by (rule take_bit_eq_mod)
  finally show ?thesis .
qed







lemma expand_loop:
  fixes self :: engine and newMask :: u64 and old :: "ttSlot list"
  assumes om: "tt_mask (tt self) + of_nat bucketLen - 1 = mask m"
    and nb: "unat (newMask + of_nat bucketLen) = nc"
  shows "length L = nc \<Longrightarrow> unat i \<le> nc \<Longrightarrow>
    (\<forall>j. j < 2 ^ m \<and> j < nc \<longrightarrow> L ! j = old ! j) \<Longrightarrow>
    (\<forall>j<unat i. L ! j = old ! (j mod 2 ^ m)) \<Longrightarrow>
    \<exists>L'. ttSetSize_expand self newMask i L = Inr L' \<and> length L' = nc
      \<and> (\<forall>j<nc. L' ! j = old ! (j mod 2 ^ m))"
proof (induction "nc - unat i" arbitrary: i L)
  case 0
  then have "unat i = nc"
    by simp
  with nb have "\<not> i < newMask + of_nat bucketLen"
    by (simp add: word_less_nat_alt)
  then have "ttSetSize_expand self newMask i L = Inr L"
    by (subst ttSetSize_expand.simps) simp
  with 0 \<open>unat i = nc\<close> show ?case
    by simp
next
  case (Suc k)
  let ?i = "unat i"
  let ?s = "?i mod 2 ^ m"
  from Suc.hyps(2) have i: "?i < nc"
    by simp
  with nb have lt: "i < newMask + of_nat bucketLen"
    by (simp add: word_less_nat_alt)
  note i1 = unat_succ_less(1) [OF lt]
  have s: "unat (i AND mask m) = ?s"
    by (rule unat_and_mask)
  have snc: "?s < nc"
    using i mod_less_eq_dividend [of ?i "2 ^ m"] by linarith
  have sm: "?s < 2 ^ m"
    by simp
  from Suc.prems(3) sm snc have src: "L ! ?s = old ! ?s"
    by blast
  let ?L' = "L[?i := L ! ?s]"
  have step: "ttSetSize_expand self newMask i L = ttSetSize_expand self newMask (i + 1) ?L'"
    using lt i snc Suc.prems(1)
    by (subst ttSetSize_expand.simps) (simp add: om s Let_def)
  have k: "k = nc - unat (i + 1)"
    using Suc.hyps(2) i1 by simp
  have len': "length ?L' = nc"
    using Suc.prems(1) by simp
  have i1le: "unat (i + 1) \<le> nc"
    using i i1 by simp
  have inv1: "\<forall>j. j < 2 ^ m \<and> j < nc \<longrightarrow> ?L' ! j = old ! j"
  proof (intro allI impI)
    fix j
    assume j: "j < 2 ^ m \<and> j < nc"
    show "?L' ! j = old ! j"
    proof (cases "j = ?i")
      case True
      with j have "?s = ?i"
        by simp
      with True src i Suc.prems(1) show ?thesis
        by simp
    next
      case False
      with Suc.prems(3) j show ?thesis
        by simp
    qed
  qed
  have inv2: "\<forall>j<unat (i + 1). ?L' ! j = old ! (j mod 2 ^ m)"
  proof (intro allI impI)
    fix j
    assume "j < unat (i + 1)"
    then have "j < ?i \<or> j = ?i"
      using i1 by auto
    then show "?L' ! j = old ! (j mod 2 ^ m)"
    proof
      assume "j < ?i"
      with Suc.prems(4) show ?thesis
        by simp
    next
      assume "j = ?i"
      with src i Suc.prems(1) show ?thesis
        by simp
    qed
  qed
  from Suc.hyps(1) [OF k len' i1le inv1 inv2] step show ?case
    by simp
qed


lemma unat_size_word:
  assumes "k + 6 < 64"
  shows "unat (push_bit (k + 6) (1 :: u64)) = 64 * 2 ^ k"
proof -
  have "(2 :: nat) ^ (k + 6) < 2 ^ 64"
    using assms by (intro power_strict_increasing) simp_all
  then have lt: "64 * 2 ^ k < (2 :: nat) ^ 64"
    by (simp add: power_add mult.commute)
  have "push_bit (k + 6) (1 :: u64) = of_nat (64 * 2 ^ k)"
    by (simp add: push_bit_eq_mult power_add mult.commute)
  then have "unat (push_bit (k + 6) (1 :: u64)) = (64 * 2 ^ k) mod 2 ^ 64"
    by (simp only: unat_of_nat) simp
  with lt show ?thesis
    by simp
qed


lemma unat_mask_word:
  assumes "k + 2 < 64"
  shows "unat (push_bit 2 (mask k :: u64)) + 4 = 4 * 2 ^ k"
proof -
  have "(2 :: nat) ^ (k + 2) < 2 ^ 64"
    using assms by (intro power_strict_increasing) simp_all
  then have lt: "4 * 2 ^ k < (2 :: nat) ^ 64"
    by (simp add: power_add mult.commute)
  have ge: "4 \<le> 4 * (2 :: nat) ^ k"
    by simp
  have "push_bit 2 (mask k :: u64) = of_nat (4 * 2 ^ k) - of_nat 4"
    by (simp add: push_bit_eq_mult mask_eq_decr_exp algebra_simps)
  also have "\<dots> = of_nat (4 * 2 ^ k - 4)"
    using ge by (simp only: of_nat_diff)
  finally have "unat (push_bit 2 (mask k :: u64)) = (4 * 2 ^ k - 4) mod 2 ^ 64"
    by (simp only: unat_of_nat) simp
  with lt have "unat (push_bit 2 (mask k :: u64)) = 4 * 2 ^ k - 4"
    by simp
  with ge show ?thesis
    by simp
qed


lemma halve_mask_aux:
  fixes c :: u64
  assumes c: "\<And>m. bit c m \<longleftrightarrow> m = 2" and k: "0 < k" "k + 2 \<le> 64"
  shows "drop_bit 1 (push_bit 2 (mask k :: u64) AND NOT c) = push_bit 2 (mask (k - 1))"
proof (rule bit_word_eqI)
  fix n :: nat
  assume "n < LENGTH(64)"
  then show "bit (drop_bit 1 (push_bit 2 (mask k :: u64) AND NOT c)) n
      = bit (push_bit 2 (mask (k - 1)) :: u64) n"
    using k by (auto simp add: bit_simps c)
qed

lemma bit_bucketLen:
  "bit (of_nat bucketLen :: u64) m \<longleftrightarrow> m = 2"
proof -
  have "(of_nat bucketLen :: u64) = push_bit 2 1"
    by (simp add: bucketLen_def)
  then show ?thesis
    by (simp only: bit_push_bit_iff bit_1_iff) auto
qed

lemma halve_mask_word:
  assumes "0 < k" and "k + 2 \<le> 64"
  shows "drop_bit 1 (push_bit 2 (mask k :: u64) AND NOT (of_nat bucketLen))
    = push_bit 2 (mask (k - 1))"
  using bit_bucketLen assms by (rule halve_mask_aux)


lemma halve_size_word:
  assumes "0 < k" and "k + 6 < 64"
  shows "drop_bit 1 (push_bit (k + 6) (1 :: u64)) = push_bit (k - 1 + 6) 1"
  using assms
  by (intro bit_word_eqI) (auto simp add: bit_simps)

subsection \<open>The size computed and the allocation\<close>

lemma retry_result:
  fixes A :: allocator and old :: "ttSlot list"
  shows "newSize = push_bit (k + 6) 1 \<Longrightarrow> newMask = push_bit 2 (mask k) \<Longrightarrow> k + 6 < 64 \<Longrightarrow>
    newSlots = realloc A old newSize \<Longrightarrow>
    ttSetSize_retry A old newSlots newSize newMask = (res, sz, mk) \<Longrightarrow>
    \<exists>k'\<le>k. sz = push_bit (k' + 6) 1 \<and> mk = push_bit 2 (mask k') \<and> res = realloc A old sz"
proof (induction k arbitrary: newSize newMask newSlots)
  case 0
  then have "newMask = 0"
    by simp
  then have "ttSetSize_retry A old newSlots newSize newMask = (newSlots, newSize, newMask)"
    by (subst ttSetSize_retry.simps) simp
  with 0 show ?case
    by auto
next
  case (Suc k)
  show ?case
  proof (cases "newSlots = None \<and> 0 < newMask")
    case False
    then have "ttSetSize_retry A old newSlots newSize newMask = (newSlots, newSize, newMask)"
      by (subst ttSetSize_retry.simps) auto
    with Suc.prems show ?thesis
      by auto
  next
    case True
    let ?sz = "drop_bit 1 newSize" and ?mk = "drop_bit 1 (newMask AND NOT (of_nat bucketLen))"
    from True have step: "ttSetSize_retry A old newSlots newSize newMask
        = ttSetSize_retry A old (realloc A old ?sz) ?sz ?mk"
      by (subst ttSetSize_retry.simps) (simp add: Let_def)
    have sz: "?sz = push_bit (k + 6) 1"
      using halve_size_word [of "Suc k"] Suc.prems(1,3) by simp
    have mk: "?mk = push_bit 2 (mask k)"
      using halve_mask_word [of "Suc k"] Suc.prems(2,3) by simp
    from Suc.prems(3) have k: "k + 6 < 64"
      by simp
    from Suc.prems(5) step have "ttSetSize_retry A old (realloc A old ?sz) ?sz ?mk = (res, sz, mk)"
      by simp
    from Suc.IH [OF sz mk k refl this] show ?thesis
      by (auto intro: le_SucI)
  qed
qed

lemma newSize_result:
  fixes bytes :: u64
  shows "\<exists>k. ttSetSize_newSize (max bytes (of_nat bucketLen * sizeofSlot))
        (of_nat bucketLen * sizeofSlot) 0 = Some (push_bit (k + 6) 1, push_bit 2 (mask k))
      \<and> k + 6 < 64 \<and> 64 * 2 ^ k \<le> max (unat bytes) 64 \<and> max (unat bytes) 64 < 64 * 2 ^ (k + 1)"
proof -
  let ?b = "max bytes (of_nat bucketLen * sizeofSlot)"
  have s: "(of_nat bucketLen * sizeofSlot :: u64) = 64"
    by (simp add: bucketLen_def sizeofSlot_def)
  have ub: "unat ?b = max (unat bytes) 64"
    by (simp add: s max_def word_le_nat_alt)
  from newSize_loop [of 64 0 0 ?b] obtain k ns nm
    where loop: "ttSetSize_newSize ?b 64 0 = Some (ns, nm)"
      and ns: "unat ns = 64 * 2 ^ k" and nm: "unat nm + 4 = 4 * 2 ^ k"
      and le: "unat ns \<le> unat ?b" and lt: "unat ?b < 2 * unat ns"
    by (auto simp add: ub)
  have "unat ns < 2 ^ 64"
    using unsigned_less [of ns] by simp
  with ns have "(2 :: nat) ^ (k + 6) < 2 ^ 64"
    by (simp add: power_add mult.commute)
  then have k: "k + 6 < 64"
    by (rule power_less_imp_less_exp [rotated]) simp
  then have k2: "k + 2 < 64"
    by simp
  from ns unat_size_word [OF k] have "unat ns = unat (push_bit (k + 6) (1 :: u64))"
    by simp
  then have ns': "ns = push_bit (k + 6) 1"
    by (simp only: word_unat_eq_iff)
  from nm unat_mask_word [OF k2] have "unat nm = unat (push_bit 2 (mask k :: u64))"
    by simp
  then have nm': "nm = push_bit 2 (mask k)"
    by (simp only: word_unat_eq_iff)
  from le ns ub have a: "64 * 2 ^ k \<le> max (unat bytes) 64"
    by simp
  from lt ns ub have b: "max (unat bytes) 64 < 64 * 2 ^ (k + 1)"
    by simp
  from loop have "ttSetSize_newSize ?b (of_nat bucketLen * sizeofSlot) 0
      = Some (push_bit (k + 6) 1, push_bit 2 (mask k))"
    by (simp only: s ns' nm')
  with k a b show ?thesis
    by blast
qed

lemma count_mask_word:
  fixes x :: u64
  assumes "unat x + bucketLen = 2 ^ m" and "m < 64"
  shows "x + of_nat bucketLen - 1 = mask m" and "unat (x + of_nat bucketLen) = 2 ^ m"
proof -
  have lt: "(2 :: nat) ^ m < 2 ^ 64"
    using assms(2) by (intro power_strict_increasing) simp_all
  have "x + of_nat bucketLen = of_nat (unat x + bucketLen)"
    by simp
  also have "\<dots> = of_nat (2 ^ m)"
    by (simp only: assms(1))
  finally have eq: "x + of_nat bucketLen = of_nat (2 ^ m)" .
  then show "x + of_nat bucketLen - 1 = mask m"
    by (simp add: mask_eq_decr_exp)
  from eq have "unat (x + of_nat bucketLen) = 2 ^ m mod 2 ^ 64"
    by (simp only: unat_of_nat) simp
  with lt show "unat (x + of_nat bucketLen) = 2 ^ m"
    by simp
qed

lemma new_count:
  assumes "k + 6 < 64"
  shows "unat (push_bit 2 (mask k :: u64)) + bucketLen = 2 ^ (k + 2)"
    and "unat (push_bit (k + 6) (1 :: u64)) div unat sizeofSlot = 2 ^ (k + 2)"
    and "push_bit (k + 6) (1 :: u64) = (push_bit 2 (mask k) + of_nat bucketLen) * sizeofSlot"
proof -
  from assms have k2: "k + 2 < 64"
    by simp
  from unat_mask_word [OF k2] show c: "unat (push_bit 2 (mask k :: u64)) + bucketLen = 2 ^ (k + 2)"
    by (simp add: bucketLen_def)
  from unat_size_word [OF assms]
  show "unat (push_bit (k + 6) (1 :: u64)) div unat sizeofSlot = 2 ^ (k + 2)"
    by (simp add: sizeofSlot_def)
  let ?c = "push_bit 2 (mask k) + of_nat bucketLen :: u64"
  have uc: "unat ?c = 2 ^ (k + 2)"
    by (rule count_mask_word(2) [OF c k2])
  have "(2 :: nat) ^ (k + 6) < 2 ^ 64"
    using assms by (intro power_strict_increasing) simp_all
  then have "unat ?c * unat sizeofSlot < 2 ^ LENGTH(64)"
    by (simp add: uc sizeofSlot_def power_add)
  then have "unat (?c * sizeofSlot) = unat ?c * unat sizeofSlot"
    by (simp only: unat_mult_lem)
  then have "unat (?c * sizeofSlot) = unat (push_bit (k + 6) (1 :: u64))"
    using unat_size_word [OF assms] by (simp add: uc sizeofSlot_def power_add)
  then show "push_bit (k + 6) (1 :: u64) = (push_bit 2 (mask k) + of_nat bucketLen) * sizeofSlot"
    by (simp only: word_unat_eq_iff)
qed

lemma realloc_Some:
  assumes "realloc A old n = Some ns"
  shows "length ns = unat n div unat sizeofSlot"
    and "\<And>i. i < length ns \<Longrightarrow> i < length old \<Longrightarrow> ns ! i = old ! i"
  using assms by (auto simp add: realloc_def split: if_splits)




subsection \<open>The stages of \<open>ttSetSize\<close>\<close>

lemma ttSetSize_stages:
  assumes loop: "ttSetSize_newSize (max bytes (of_nat bucketLen * sizeofSlot))
        (of_nat bucketLen * sizeofSlot) 0 = Some (ns0, nm0)"
    and shr: "(if ns0 < tt_size (tt self) then ttSetSize_shrink P nm0 0 self else Inr self)
        = Inr self1"
    and ret: "ttSetSize_retry A (slots (tt self1)) (realloc A (slots (tt self1)) ns0) ns0 nm0
        = (Some newSlots, sz, mk)"
    and mem: "(if slots (tt self1) = [] then memsetBucket newSlots else Inr newSlots) = Inr ns1"
    and exp: "(if tt_size (tt self1) < sz then ttSetSize_expand self1 mk 0 ns1 else Inr ns1)
        = Inr ns2"
  shows "ttSetSize P A self bytes
    = Some (Inr (self1\<lparr>tt := (tt self1)\<lparr>slots := ns2, tt_size := sz, tt_mask := mk\<rparr>\<rparr>))"
  unfolding ttSetSize_def Let_def loop option.case prod.case shr sum.case ret mem exp
  by simp

lemma ttSetSize_abort:
  assumes loop: "ttSetSize_newSize (max bytes (of_nat bucketLen * sizeofSlot))
        (of_nat bucketLen * sizeofSlot) 0 = Some (ns0, nm0)"
    and shr: "(if ns0 < tt_size (tt self) then ttSetSize_shrink P nm0 0 self else Inr self)
        = Inr self1"
    and ret: "ttSetSize_retry A (slots (tt self1)) (realloc A (slots (tt self1)) ns0) ns0 nm0
        = (None, sz, mk)"
  shows "ttSetSize P A self bytes = Some (Inl Abort)"
  unfolding ttSetSize_def Let_def loop option.case prod.case shr sum.case ret
  by simp

text \<open>The stages after the allocation, for a block of the slots that the new mask asks for.\<close>

lemma after_alloc:
  fixes self1 :: engine and newSlots :: "ttSlot list"
  assumes wf: "wf_alloc self1" and k: "k + 6 < 64"
    and len: "length newSlots = 2 ^ (k + 2)"
    and keep: "\<And>i. i < length newSlots \<Longrightarrow> i < length (slots (tt self1)) \<Longrightarrow>
        newSlots ! i = slots (tt self1) ! i"
  shows "\<exists>ns1 ns2.
      (if slots (tt self1) = [] then memsetBucket newSlots else Inr newSlots) = Inr ns1
      \<and> (if tt_size (tt self1) < sz then ttSetSize_expand self1 (push_bit 2 (mask k)) 0 ns1
          else Inr ns1) = Inr ns2
      \<and> length ns2 = 2 ^ (k + 2)
      \<and> (\<not> tt_size (tt self1) < sz \<longrightarrow> ns2 = ns1)
      \<and> (slots (tt self1) \<noteq> [] \<longrightarrow> ns1 = newSlots)
      \<and> (slots (tt self1) \<noteq> [] \<and> tt_size (tt self1) < sz \<longrightarrow>
          (\<forall>j<2 ^ (k + 2). ns2 ! j = slots (tt self1) ! (j mod length (slots (tt self1)))))
      \<and> (slots (tt self1) = [] \<and> tt_size (tt self1) < sz \<longrightarrow>
          (\<forall>j<2 ^ (k + 2). ns2 ! j = \<lparr>key = 0, data = 0\<rparr>))"
proof -
  let ?old = "slots (tt self1)"
  let ?mk = "push_bit 2 (mask k) :: u64"
  from k have k2: "k + 2 < 64"
    by simp
  have "(4 :: nat) \<le> 2 ^ (k + 2)"
    by (simp add: power_add)
  with len have len4: "bucketLen \<le> length newSlots"
    by (simp add: bucketLen_def)
  obtain ns1 where mem: "(if ?old = [] then memsetBucket newSlots else Inr newSlots) = Inr ns1"
    and len1: "length ns1 = 2 ^ (k + 2)" and same: "?old \<noteq> [] \<longrightarrow> ns1 = newSlots"
    and zero: "?old = [] \<longrightarrow> (\<forall>j<bucketLen. ns1 ! j = \<lparr>key = 0, data = 0\<rparr>)"
    using len4 len by (cases "?old = []") (auto simp add: memsetBucket_def nth_append)
  obtain m where m: "m < 64" "unat (tt_mask (tt self1)) + bucketLen = 2 ^ m"
    "?old \<noteq> [] \<longrightarrow> length ?old = 2 ^ m" "?old = [] \<longrightarrow> 2 ^ m = bucketLen"
  proof (cases "?old = []")
    case True
    with wf have "tt_mask (tt self1) = 0"
      by (simp add: wf_alloc_def)
    then have "unat (tt_mask (tt self1)) + bucketLen = 2 ^ 2"
      by (simp add: bucketLen_def)
    with True show ?thesis
      by (intro that [of 2]) (simp_all add: bucketLen_def)
  next
    case False
    with wf obtain m where "m \<in> {2..31}" "length ?old = 2 ^ m" "wf_table self1"
      by (auto simp add: wf_alloc_def)
    with False show ?thesis
      by (intro that [of m]) (simp_all add: wf_table_def)
  qed
  note om = count_mask_word(1) [OF m(2) m(1)]
  have nb: "unat (?mk + of_nat bucketLen) = 2 ^ (k + 2)"
    by (rule count_mask_word(2) [OF new_count(1) [OF k] k2])
  show ?thesis
  proof (cases "tt_size (tt self1) < sz")
    case False
    with mem len1 same show ?thesis
      by auto
  next
    case True
    let ?ref = "if ?old = [] then ns1 else ?old"
    have inv1: "\<forall>j. j < 2 ^ m \<and> j < 2 ^ (k + 2) \<longrightarrow> ns1 ! j = ?ref ! j"
      using same keep len m(3) by auto
    have inv2: "\<forall>j<unat (0 :: u64). ns1 ! j = ?ref ! (j mod 2 ^ m)"
      by simp
    from expand_loop [OF om nb len1 _ inv1 inv2] obtain ns2
      where exp: "ttSetSize_expand self1 ?mk 0 ns1 = Inr ns2" and len2: "length ns2 = 2 ^ (k + 2)"
        and all: "\<forall>j<2 ^ (k + 2). ns2 ! j = ?ref ! (j mod 2 ^ m)"
      by auto
    from all m(3) have "?old \<noteq> [] \<longrightarrow> (\<forall>j<2 ^ (k + 2). ns2 ! j = ?old ! (j mod length ?old))"
      by simp
    moreover have "?old = [] \<longrightarrow> (\<forall>j<2 ^ (k + 2). ns2 ! j = \<lparr>key = 0, data = 0\<rparr>)"
    proof (intro impI allI)
      fix j :: nat
      assume e: "?old = []" and j: "j < 2 ^ (k + 2)"
      from e m(4) have "j mod 2 ^ m < bucketLen"
        by (simp add: bucketLen_def)
      with e zero have "ns1 ! (j mod 2 ^ m) = \<lparr>key = 0, data = 0\<rparr>"
        by blast
      with all j e show "ns2 ! j = \<lparr>key = 0, data = 0\<rparr>"
        by simp
    qed
    ultimately show ?thesis
      using True mem exp len2 same by auto
  qed
qed






section \<open>Properties of the move encoding\<close>

lemma sq_take_bit:
  fixes w :: cint
  assumes "0 \<le> sint w" and "sint w \<le> 63"
  shows "take_bit 6 w = w"
proof -
  have "uint w = take_bit 32 (sint w)"
    by (simp add: uint_sint)
  also have "\<dots> = sint w"
    using assms by (simp add: take_bit_int_eq_self)
  finally have "uint w < 2 ^ 6"
    using assms(2) by simp
  then have "w AND mask 6 = w"
    by (simp only: mask_eq_iff)
  then show ?thesis
    by (simp add: take_bit_eq_mask)
qed

lemma sq_bit:
  fixes w :: cint
  shows "take_bit 6 w = w \<Longrightarrow> bit w n \<Longrightarrow> n < 6"
  by (metis bit_take_bit_iff)

lemma from_move_flags:
  fixes f t x :: cint
  assumes "take_bit 6 f = f" and "take_bit 6 t = t"
  shows "from (move f t OR push_bit 12 x) = f"
  using assms
  by (intro bit_word_eqI)
    (auto simp add: from_def move_def boardBits_def bit_simps dest: sq_bit)

lemma to_move_flags:
  fixes f t x :: cint
  assumes "take_bit 6 f = f" and "take_bit 6 t = t"
  shows "to (move f t OR push_bit 12 x) = t"
  using assms
  by (intro bit_word_eqI)
    (auto simp add: to_def move_def boardBits_def bit_simps dest: sq_bit)

lemma flags_as_shift:
  "specialMoveFlag = push_bit 12 1"
  "specialMoveFlag OR queenPromotionFlags = push_bit 12 1"
  "specialMoveFlag OR rookPromotionFlags = push_bit 12 3"
  "specialMoveFlag OR bishopPromotionFlags = push_bit 12 5"
  "specialMoveFlag OR knightPromotionFlags = push_bit 12 7"
  by (simp_all add: specialMoveFlag_def queenPromotionFlags_def rookPromotionFlags_def
      bishopPromotionFlags_def knightPromotionFlags_def promotionBits_def boardBits_def)

text \<open>
  Claim C9. For squares \<open>from\<close> and \<open>to\<close> in \<open>[0, 63]\<close> the macros \<open>from\<close> and \<open>to\<close>
  recover the two squares from \<open>move(from, to)\<close>, from \<open>specialMove(from, to)\<close>, and
  from \<open>specialMove(from, to)\<close> with any of the four promotion flag values or'd in.
\<close>

theorem move_from_to_roundtrip:
  fixes f t p :: cint
  assumes "0 \<le> sint f" and "sint f \<le> 63" and "0 \<le> sint t" and "sint t \<le> 63"
    and "p \<in> {queenPromotionFlags, rookPromotionFlags, bishopPromotionFlags,
      knightPromotionFlags}"
  shows "from (move f t) = f \<and> to (move f t) = t
    \<and> from (specialMove f t) = f \<and> to (specialMove f t) = t
    \<and> from (specialMove f t OR p) = f \<and> to (specialMove f t OR p) = t"
proof -
  have f: "take_bit 6 f = f" and t: "take_bit 6 t = t"
    using assms by (simp_all add: sq_take_bit)
  have plain: "from (move f t) = f \<and> to (move f t) = t"
    using from_move_flags [OF f t, of 0] to_move_flags [OF f t, of 0] by simp
  have special: "from (specialMove f t) = f \<and> to (specialMove f t) = t"
    using from_move_flags [OF f t, of 1] to_move_flags [OF f t, of 1]
    by (simp add: specialMove_def flags_as_shift or.commute)
  have sp: "specialMove f t OR p = move f t OR (specialMoveFlag OR p)"
    by (simp add: specialMove_def or.assoc or.commute or.left_commute)
  have "\<exists>x. specialMoveFlag OR p = push_bit 12 x"
    using assms(5) flags_as_shift(2-5) by blast
  then obtain x :: cint where "specialMoveFlag OR p = push_bit 12 x" ..
  with sp have "specialMove f t OR p = move f t OR push_bit 12 x"
    by simp
  then have promo: "from (specialMove f t OR p) = f \<and> to (specialMove f t OR p) = t"
    using from_move_flags [OF f t, of x] to_move_flags [OF f t, of x] by simp
  from plain special promo show ?thesis by simp
qed

theorem move_from_to_roundtrip_witness:
  "0 \<le> sint (12 :: cint) \<and> sint (12 :: cint) \<le> 63
    \<and> 0 \<le> sint (28 :: cint) \<and> sint (28 :: cint) \<le> 63
    \<and> from (move 12 28) = 12 \<and> to (move 12 28) = 28
    \<and> from (specialMove 12 28) = 12 \<and> to (specialMove 12 28) = 28
    \<and> from (specialMove 12 28 OR knightPromotionFlags) = 12
    \<and> to (specialMove 12 28 OR knightPromotionFlags) = 28"
  using move_from_to_roundtrip [of 12 28 knightPromotionFlags] by simp


section \<open>Properties of \<open>ttWrite\<close> and \<open>ttRead\<close>\<close>

lemma wf_sampleDecls: "wf_decls sampleDecls"
  by (simp add: wf_decls_def wf_layout_def layoutFields_def sampleDecls_def apart_def fits_def)

lemma wf_sampleEngine: "wf_table sampleEngine"
  by (simp add: wf_table_def sampleEngine_def bucketLen_def)
text \<open>
  Claim C1, amended. After a \<open>ttWrite\<close> of a slot whose \<open>key\<close> is the probe hash, which
  returns neither by the preserve-older rule nor by refusing a DTZ score, \<open>ttRead\<close> for
  the same board hash on the table it leaves (at any ply) returns a slot \<open>res\<close> made from
  the stored slot \<open>w\<close>: its \<open>key\<close> is the probe hash, its bound flags are
  \<open>score \<le> alpha\<close> and \<open>score \<ge> beta\<close>, its depth is the written depth modulo
  \<open>2^ttDepthBits\<close>, which is the written depth when that is in \<open>[0, 2^ttDepthBits)\<close>, and
  when \<open>isWinLossScore\<close> is set its score is the stored score minus the root distance
  if the stored score is not negative, plus it otherwise, reduced to the width of the
  score field, which is that integer when it is a value of the field.
\<close>

theorem ttRead_after_ttWrite:
  fixes P :: decls and self self' later :: engine and slot :: ttSlot
    and depth score alpha beta r :: cint
  assumes wfP: "wf_decls P" and wfT: "wf_table self"
    and key: "key slot = hash (board self) XOR baseHash (tt self)"
    and np: "\<not> (isHardBound P slot
        \<and> ((isLowerBound P slot \<and> score \<le>s slot_score P slot)
          \<or> (isUpperBound P slot \<and> slot_score P slot \<le>s score)))"
    and nh: "\<not> (maxEval P <s score \<and> maxEval P + 1 <s score
        \<and> halfmoveClock (board self) = 0 \<and> score \<le>s maxDtz P)"
    and nl: "\<not> (score <s minEval P \<and> score <s minEval P - 1
        \<and> halfmoveClock (board self) = 0 \<and> minDtz P \<le>s score)"
    and ret: "ttWrite P self slot depth score alpha beta = Inr (r, self')"
    and later: "tt later = tt self'" "hash (board later) = hash (board self)"
  shows "\<exists>w res. w \<in> set (slots (tt self')) \<and> key w XOR data w = key slot
      \<and> ttRead P later = Inr res
      \<and> key res = key slot
      \<and> isUpperBound P res = (score \<le>s alpha)
      \<and> isLowerBound P res = (beta \<le>s score)
      \<and> slot_depth P res = take_bit (ttDepthBits P) depth
      \<and> (0 \<le> sint depth \<and> sint depth < 2 ^ ttDepthBits P \<longrightarrow> slot_depth P res = depth)
      \<and> (isWinLossScore P res \<longrightarrow>
          slot_score P res = signed_take_bit (scoreBits P - 1)
            (slot_score P w
              + (if 0 \<le>s slot_score P w then - (plyNumber (board later) - rootPlyNumber later)
                 else plyNumber (board later) - rootPlyNumber later))
          \<and> (scoreFits P (sint (slot_score P w)
                + sint (if 0 \<le>s slot_score P w
                    then - (plyNumber (board later) - rootPlyNumber later)
                    else plyNumber (board later) - rootPlyNumber later)) \<longrightarrow>
              sint (slot_score P res) = sint (slot_score P w)
                + sint (if 0 \<le>s slot_score P w
                    then - (plyNumber (board later) - rootPlyNumber later)
                    else plyNumber (board later) - rootPlyNumber later)))"
proof -
  from wfP have wfL: "wf_layout P"
    by (simp add: wf_decls_def)
  let ?F = "ttWrite_fields P self slot depth score alpha beta"
  from ttWrite_returned [OF np nh nl ret] obtain s1 s2
    where high: "ttWrite_high P self score ?F = Next s1"
      and low: "ttWrite_low P self score s1 = Next s2"
    by blast
  let ?b = "unat (key slot AND tt_mask (tt self))"
  let ?w = "s2\<lparr>key := key slot XOR data s2\<rparr>"
  from ttWrite_proceeds [OF wfP wfT np high low] ret obtain i
    where sel: "selected
        (\<lambda>k. key (slots (tt self) ! (?b + k)) XOR data (slots (tt self) ! (?b + k)) = key slot)
        (\<lambda>k. spec_prio P (now (tt self)) (slots (tt self) ! (?b + k))) i"
      and self': "self' = self\<lparr>tt := (tt self)\<lparr>slots := (slots (tt self))[?b + i := ?w]\<rparr>\<rparr>"
    by auto
  from sel have i: "i < bucketLen"
    by (simp add: selected_def)
  have w: "key ?w XOR data ?w = key slot"
    by (simp add: xor.assoc)
  from bucket_index(2) [OF wfT i, of "key slot"] have "?w \<in> set (slots (tt self'))"
    by (simp add: self' set_update_memI)
  moreover have read: "ttRead P later = Inr (ttRead_hit P later ?w)"
    using sel w later
    by (intro ttRead_after_store [OF wfT, where i = i]) (simp_all add: key self')
  moreover note hit = ttRead_hit_props [OF wfL, where self = later and w = ?w]
  have "key (ttRead_hit P later ?w) = key slot"
    using hit(1) w by simp
  moreover have "isUpperBound P (ttRead_hit P later ?w) = (score \<le>s alpha)"
    using hit(2) ttWrite_low_Next(2) [OF wfL low] ttWrite_high_Next(2) [OF wfL high]
      ttWrite_fields_props(5) [OF wfL, of self slot depth score alpha beta]
    by (simp add: key_update_fields)
  moreover have "isLowerBound P (ttRead_hit P later ?w) = (beta \<le>s score)"
    using hit(3) ttWrite_low_Next(3) [OF wfL low] ttWrite_high_Next(3) [OF wfL high]
      ttWrite_fields_props(6) [OF wfL, of self slot depth score alpha beta]
    by (simp add: key_update_fields)
  moreover have "slot_depth P (ttRead_hit P later ?w) = take_bit (ttDepthBits P) depth"
    using hit(6) ttWrite_low_Next(4) [OF wfL low] ttWrite_high_Next(4) [OF wfL high]
      ttWrite_fields_props(3) [OF wfL, of self slot depth score alpha beta]
    by (simp add: key_update_fields)
  moreover have "0 \<le> sint depth \<and> sint depth < 2 ^ ttDepthBits P \<longrightarrow>
      slot_depth P (ttRead_hit P later ?w) = depth"
    using \<open>slot_depth P (ttRead_hit P later ?w) = take_bit (ttDepthBits P) depth\<close>
    by (simp add: take_bit_cint_self)
  moreover have "isWinLossScore P (ttRead_hit P later ?w) \<longrightarrow>
      slot_score P (ttRead_hit P later ?w) = signed_take_bit (scoreBits P - 1)
        (slot_score P ?w
          + (if 0 \<le>s slot_score P ?w then - (plyNumber (board later) - rootPlyNumber later)
             else plyNumber (board later) - rootPlyNumber later))
      \<and> (scoreFits P (sint (slot_score P ?w)
            + sint (if 0 \<le>s slot_score P ?w
                then - (plyNumber (board later) - rootPlyNumber later)
                else plyNumber (board later) - rootPlyNumber later)) \<longrightarrow>
          sint (slot_score P (ttRead_hit P later ?w)) = sint (slot_score P ?w)
            + sint (if 0 \<le>s slot_score P ?w
                then - (plyNumber (board later) - rootPlyNumber later)
                else plyNumber (board later) - rootPlyNumber later))"
  proof (intro impI conjI)
    let ?d = "if 0 \<le>s slot_score P ?w then - (plyNumber (board later) - rootPlyNumber later)
        else plyNumber (board later) - rootPlyNumber later"
    assume wl: "isWinLossScore P (ttRead_hit P later ?w)"
    with hit(5) hit(7) show sc: "slot_score P (ttRead_hit P later ?w)
        = signed_take_bit (scoreBits P - 1) (slot_score P ?w + ?d)"
      by simp
    assume fit: "scoreFits P (sint (slot_score P ?w) + sint ?d)"
    from sint_add_fits [OF wfL fit] have add: "sint (slot_score P ?w + ?d)
        = sint (slot_score P ?w) + sint ?d" .
    with fit have "scoreFits P (sint (slot_score P ?w + ?d))"
      by simp
    from sint_score_field [OF wfL this] sc add
    show "sint (slot_score P (ttRead_hit P later ?w)) = sint (slot_score P ?w) + sint ?d"
      by simp
  qed
  ultimately show ?thesis
    using w by blast
qed

theorem ttRead_after_ttWrite_witness:
  "ttWrite sampleDecls sampleEngine \<lparr>key = 4660, data = 0\<rparr> 10 32000 (- 32767) 32767
      = Inr (32000, sampleWritten)
    \<and> ttRead sampleDecls sampleLater = Inr \<lparr>key = 4660, data = 36034337526807806\<rparr>
    \<and> (\<exists>w res. w \<in> set (slots (tt sampleWritten)) \<and> key w XOR data w = 4660
      \<and> ttRead sampleDecls sampleLater = Inr res
      \<and> key res = 4660
      \<and> isUpperBound sampleDecls res = ((32000 :: cint) \<le>s - 32767)
      \<and> isLowerBound sampleDecls res = ((32767 :: cint) \<le>s 32000)
      \<and> slot_depth sampleDecls res = 10
      \<and> isWinLossScore sampleDecls res
      \<and> slot_score sampleDecls res = 31998)"
proof -
  let ?slot = "\<lparr>key = 4660, data = 0\<rparr> :: ttSlot"
  have ret: "ttWrite sampleDecls sampleEngine ?slot 10 32000 (- 32767) 32767
      = Inr (32000, sampleWritten)"
    by code_simp
  have rd: "ttRead sampleDecls sampleLater = Inr \<lparr>key = 4660, data = 36034337526807806\<rparr>"
    by code_simp
  have k: "key ?slot = hash (board sampleEngine) XOR baseHash (tt sampleEngine)"
    by code_simp
  have np: "\<not> (isHardBound sampleDecls ?slot
        \<and> ((isLowerBound sampleDecls ?slot \<and> 32000 \<le>s slot_score sampleDecls ?slot)
          \<or> (isUpperBound sampleDecls ?slot \<and> slot_score sampleDecls ?slot \<le>s 32000)))"
    by code_simp
  have nh: "\<not> (maxEval sampleDecls <s 32000 \<and> maxEval sampleDecls + 1 <s 32000
        \<and> halfmoveClock (board sampleEngine) = 0 \<and> 32000 \<le>s maxDtz sampleDecls)"
    by code_simp
  have nl: "\<not> (32000 <s minEval sampleDecls \<and> 32000 <s minEval sampleDecls - 1
        \<and> halfmoveClock (board sampleEngine) = 0 \<and> minDtz sampleDecls \<le>s 32000)"
    by code_simp
  have l1: "tt sampleLater = tt sampleWritten"
    by (simp add: sampleLater_def)
  have l2: "hash (board sampleLater) = hash (board sampleEngine)"
    by (simp add: sampleLater_def sampleWritten_def)
  from ttRead_after_ttWrite [OF wf_sampleDecls wf_sampleEngine k np nh nl ret l1 l2]
  obtain w res where w: "w \<in> set (slots (tt sampleWritten))" "key w XOR data w = key ?slot"
    and res: "ttRead sampleDecls sampleLater = Inr res" "key res = key ?slot"
      "isUpperBound sampleDecls res = ((32000 :: cint) \<le>s - 32767)"
      "isLowerBound sampleDecls res = ((32767 :: cint) \<le>s 32000)"
      "slot_depth sampleDecls res = take_bit (ttDepthBits sampleDecls) 10"
    by blast
  from res(1) rd have r: "res = \<lparr>key = 4660, data = 36034337526807806\<rparr>"
    by simp
  have "take_bit (ttDepthBits sampleDecls) (10 :: cint) = 10"
    by code_simp
  moreover have "isWinLossScore sampleDecls \<lparr>key = 4660, data = 36034337526807806\<rparr>"
    by code_simp
  moreover have "slot_score sampleDecls \<lparr>key = 4660, data = 36034337526807806\<rparr> = 31998"
    by code_simp
  ultimately show ?thesis
    using ret rd w res r by auto
qed

theorem ttRead_after_ttWrite_counterexample:
  "key \<lparr>key = 4660, data = 0\<rparr> = hash (board sampleEngine) XOR baseHash (tt sampleEngine)
    \<and> \<not> isHardBound sampleDecls \<lparr>key = 4660, data = 0\<rparr>
    \<and> halfmoveClock (board sampleEngine) \<noteq> 0
    \<and> ttWrite sampleDecls sampleEngine \<lparr>key = 4660, data = 0\<rparr> 300 100 0 200
      = Inr (100, sampleDeep)
    \<and> ttRead sampleDecls sampleDeep = Inr \<lparr>key = 4660, data = 5686536700004\<rparr>
    \<and> slot_depth sampleDecls \<lparr>key = 4660, data = 5686536700004\<rparr> = 44
    \<and> ttWrite sampleDecls sampleEngine \<lparr>key = 4660, data = 0\<rparr> 10 32763 (- 32767) 32767
      = Inr (32763, sampleMate)
    \<and> slot_score sampleDecls (slots (tt sampleMate) ! 0) = 32766
    \<and> plyNumber (board sampleEarlier) - rootPlyNumber sampleEarlier = - 5
    \<and> ttRead sampleDecls sampleEarlier = Inr \<lparr>key = 4660, data = 36034337526808579\<rparr>
    \<and> isWinLossScore sampleDecls \<lparr>key = 4660, data = 36034337526808579\<rparr>
    \<and> slot_score sampleDecls \<lparr>key = 4660, data = 36034337526808579\<rparr> = - 32765"
  by code_simp

text \<open>
  Claim C2. When the slot passed to \<open>ttWrite\<close> is a hard bound and the new score is a
  weaker bound in the same direction, \<open>ttWrite\<close> returns the score of that slot and the
  engine, with every slot of the table, is as before.
\<close>

theorem ttWrite_preserve_older:
  assumes "isHardBound P slot"
    and "(isLowerBound P slot \<and> score \<le>s slot_score P slot)
      \<or> (isUpperBound P slot \<and> slot_score P slot \<le>s score)"
  shows "ttWrite P self slot depth score alpha beta = Inr (slot_score P slot, self)"
  using assms by (simp add: ttWrite_def)

theorem ttWrite_preserve_older_witness:
  "isHardBound sampleDecls \<lparr>key = 4660, data = 27021597764223076\<rparr>
    \<and> isLowerBound sampleDecls \<lparr>key = 4660, data = 27021597764223076\<rparr>
    \<and> 50 \<le>s slot_score sampleDecls \<lparr>key = 4660, data = 27021597764223076\<rparr>
    \<and> ttWrite sampleDecls sampleEngine \<lparr>key = 4660, data = 27021597764223076\<rparr> 5 50 0 0
      = Inr (100, sampleEngine)"
proof -
  let ?s = "\<lparr>key = 4660, data = 27021597764223076\<rparr>"
  have h: "isHardBound sampleDecls ?s"
    by code_simp
  have l: "isLowerBound sampleDecls ?s \<and> 50 \<le>s slot_score sampleDecls ?s"
    by code_simp
  have v: "slot_score sampleDecls ?s = 100"
    by code_simp
  from l have "(isLowerBound sampleDecls ?s \<and> 50 \<le>s slot_score sampleDecls ?s)
      \<or> (isUpperBound sampleDecls ?s \<and> slot_score sampleDecls ?s \<le>s 50)"
    by (rule disjI1)
  from ttWrite_preserve_older [OF h this, of sampleEngine 5 0 0] h l v show ?thesis
    by simp
qed

text \<open>
  Claim C3, with the proviso that the preserve-older rule does not return first. In
  \<open>ttWrite\<close> with \<open>score > maxEval\<close>: if also \<open>score > maxEval + 1\<close>, the halfmove clock is
  0 and \<open>score \<le> maxDtz\<close>, \<open>ttWrite\<close> returns \<open>score\<close> and the engine is as before;
  otherwise a write that returns has stored a slot \<open>w\<close> in the bucket whose
  \<open>isHardBound\<close> is the computed \<open>isLowerBound\<close>, and when \<open>score > maxEval + 1\<close> its
  \<open>isWinLossScore\<close> is set and its score is \<open>score + ply\<close> as the score field holds it,
  which is the integer \<open>score + ply\<close> when that is a value of the field. Likewise for
  \<open>score < minEval\<close>, with \<open>score - ply\<close>, \<open>minDtz\<close> and \<open>isUpperBound\<close>.
\<close>

theorem ttWrite_mate_dtz:
  fixes P :: decls and self :: engine and slot :: ttSlot
    and depth score alpha beta :: cint
  assumes wfP: "wf_decls P" and wfT: "wf_table self"
    and np: "\<not> (isHardBound P slot
        \<and> ((isLowerBound P slot \<and> score \<le>s slot_score P slot)
          \<or> (isUpperBound P slot \<and> slot_score P slot \<le>s score)))"
  shows "(maxEval P <s score \<and> maxEval P + 1 <s score
        \<and> halfmoveClock (board self) = 0 \<and> score \<le>s maxDtz P \<longrightarrow>
        ttWrite P self slot depth score alpha beta = Inr (score, self))
    \<and> (score <s minEval P \<and> score <s minEval P - 1
        \<and> halfmoveClock (board self) = 0 \<and> minDtz P \<le>s score \<longrightarrow>
        ttWrite P self slot depth score alpha beta = Inr (score, self))
    \<and> (\<forall>r self'. maxEval P <s score
        \<and> \<not> (maxEval P + 1 <s score \<and> halfmoveClock (board self) = 0
            \<and> score \<le>s maxDtz P)
        \<and> ttWrite P self slot depth score alpha beta = Inr (r, self') \<longrightarrow>
        (\<exists>i w. i < bucketLen \<and> r = score
          \<and> self' = self\<lparr>tt := (tt self)\<lparr>slots :=
              (slots (tt self))[unat (key slot AND tt_mask (tt self)) + i := w]\<rparr>\<rparr>
          \<and> isHardBound P w = (beta \<le>s score) \<and> isLowerBound P w = (beta \<le>s score)
          \<and> (maxEval P + 1 <s score \<longrightarrow>
              isWinLossScore P w
              \<and> slot_score P w = signed_take_bit (scoreBits P - 1)
                  (signed_take_bit (scoreBits P - 1) score + ply self)
              \<and> (scoreFits P (sint score)
                  \<and> scoreFits P (sint score + sint (ply self)) \<longrightarrow>
                  sint (slot_score P w) = sint score + sint (ply self)))))
    \<and> (\<forall>r self'. score <s minEval P
        \<and> \<not> (score <s minEval P - 1 \<and> halfmoveClock (board self) = 0
            \<and> minDtz P \<le>s score)
        \<and> ttWrite P self slot depth score alpha beta = Inr (r, self') \<longrightarrow>
        (\<exists>i w. i < bucketLen \<and> r = score
          \<and> self' = self\<lparr>tt := (tt self)\<lparr>slots :=
              (slots (tt self))[unat (key slot AND tt_mask (tt self)) + i := w]\<rparr>\<rparr>
          \<and> isHardBound P w = (score \<le>s alpha) \<and> isUpperBound P w = (score \<le>s alpha)
          \<and> (score <s minEval P - 1 \<longrightarrow>
              isWinLossScore P w
              \<and> slot_score P w = signed_take_bit (scoreBits P - 1)
                  (signed_take_bit (scoreBits P - 1) score - ply self)
              \<and> (scoreFits P (sint score)
                  \<and> scoreFits P (sint score - sint (ply self)) \<longrightarrow>
                  sint (slot_score P w) = sint score - sint (ply self)))))"
proof (intro conjI allI impI)
  assume "maxEval P <s score \<and> maxEval P + 1 <s score
        \<and> halfmoveClock (board self) = 0 \<and> score \<le>s maxDtz P"
  then show "ttWrite P self slot depth score alpha beta = Inr (score, self)"
    using ttWrite_refuse_high [OF np] by blast
next
  assume "score <s minEval P \<and> score <s minEval P - 1
        \<and> halfmoveClock (board self) = 0 \<and> minDtz P \<le>s score"
  then show "ttWrite P self slot depth score alpha beta = Inr (score, self)"
    using ttWrite_refuse_low [OF wfP np] by blast
next
  fix r self'
  assume "maxEval P <s score
        \<and> \<not> (maxEval P + 1 <s score \<and> halfmoveClock (board self) = 0
            \<and> score \<le>s maxDtz P)
        \<and> ttWrite P self slot depth score alpha beta = Inr (r, self')"
  then have gt: "maxEval P <s score"
    and nh: "\<not> (maxEval P + 1 <s score \<and> halfmoveClock (board self) = 0
        \<and> score \<le>s maxDtz P)"
    and ret: "ttWrite P self slot depth score alpha beta = Inr (r, self')"
    by blast+
  show "\<exists>i w. i < bucketLen \<and> r = score
          \<and> self' = self\<lparr>tt := (tt self)\<lparr>slots :=
              (slots (tt self))[unat (key slot AND tt_mask (tt self)) + i := w]\<rparr>\<rparr>
          \<and> isHardBound P w = (beta \<le>s score) \<and> isLowerBound P w = (beta \<le>s score)
          \<and> (maxEval P + 1 <s score \<longrightarrow>
              isWinLossScore P w
              \<and> slot_score P w = signed_take_bit (scoreBits P - 1)
                  (signed_take_bit (scoreBits P - 1) score + ply self)
              \<and> (scoreFits P (sint score)
                  \<and> scoreFits P (sint score + sint (ply self)) \<longrightarrow>
                  sint (slot_score P w) = sint score + sint (ply self)))"
    by (rule ttWrite_stored_high [OF wfP wfT np gt nh ret])
next
  fix r self'
  assume "score <s minEval P
        \<and> \<not> (score <s minEval P - 1 \<and> halfmoveClock (board self) = 0
            \<and> minDtz P \<le>s score)
        \<and> ttWrite P self slot depth score alpha beta = Inr (r, self')"
  then have lt: "score <s minEval P"
    and nl: "\<not> (score <s minEval P - 1 \<and> halfmoveClock (board self) = 0
        \<and> minDtz P \<le>s score)"
    and ret: "ttWrite P self slot depth score alpha beta = Inr (r, self')"
    by blast+
  show "\<exists>i w. i < bucketLen \<and> r = score
          \<and> self' = self\<lparr>tt := (tt self)\<lparr>slots :=
              (slots (tt self))[unat (key slot AND tt_mask (tt self)) + i := w]\<rparr>\<rparr>
          \<and> isHardBound P w = (score \<le>s alpha) \<and> isUpperBound P w = (score \<le>s alpha)
          \<and> (score <s minEval P - 1 \<longrightarrow>
              isWinLossScore P w
              \<and> slot_score P w = signed_take_bit (scoreBits P - 1)
                  (signed_take_bit (scoreBits P - 1) score - ply self)
              \<and> (scoreFits P (sint score)
                  \<and> scoreFits P (sint score - sint (ply self)) \<longrightarrow>
                  sint (slot_score P w) = sint score - sint (ply self)))"
    by (rule ttWrite_stored_low [OF wfP wfT np lt nl ret])
qed

lemma wf_sampleZeroing: "wf_table sampleZeroing"
  by (simp add: wf_table_def sampleZeroing_def sampleEngine_def bucketLen_def)

theorem ttWrite_mate_dtz_witness:
  "ttWrite sampleDecls sampleZeroing \<lparr>key = 4660, data = 0\<rparr> 10 30400 (- 32767) 32767
      = Inr (30400, sampleZeroing)
    \<and> ttWrite sampleDecls sampleEngine \<lparr>key = 4660, data = 0\<rparr> 10 32000 (- 32767) 32767
      = Inr (32000, sampleWritten)
    \<and> (\<exists>i w. i < bucketLen
      \<and> sampleWritten = sampleEngine\<lparr>tt := (tt sampleEngine)\<lparr>slots :=
          (slots (tt sampleEngine))[0 + i := w]\<rparr>\<rparr>
      \<and> isHardBound sampleDecls w = ((32767 :: cint) \<le>s 32000)
      \<and> isLowerBound sampleDecls w = ((32767 :: cint) \<le>s 32000)
      \<and> isWinLossScore sampleDecls w
      \<and> sint (slot_score sampleDecls w) = 32003)"
proof -
  let ?slot = "\<lparr>key = 4660, data = 0\<rparr> :: ttSlot"
  have np: "\<not> (isHardBound sampleDecls ?slot
        \<and> ((isLowerBound sampleDecls ?slot \<and> s \<le>s slot_score sampleDecls ?slot)
          \<or> (isUpperBound sampleDecls ?slot \<and> slot_score sampleDecls ?slot \<le>s s)))" for s
  proof -
    have "\<not> isHardBound sampleDecls ?slot"
      by code_simp
    then show ?thesis
      by simp
  qed
  note z = ttWrite_mate_dtz [OF wf_sampleDecls wf_sampleZeroing np,
      of 30400 10 "- 32767" 32767]
  note e = ttWrite_mate_dtz [OF wf_sampleDecls wf_sampleEngine np,
      of 32000 10 "- 32767" 32767]
  have c1: "maxEval sampleDecls <s 30400 \<and> maxEval sampleDecls + 1 <s 30400
      \<and> halfmoveClock (board sampleZeroing) = 0 \<and> 30400 \<le>s maxDtz sampleDecls"
    by code_simp
  with z have refuse: "ttWrite sampleDecls sampleZeroing ?slot 10 30400 (- 32767) 32767
      = Inr (30400, sampleZeroing)"
    by blast
  have ret: "ttWrite sampleDecls sampleEngine ?slot 10 32000 (- 32767) 32767
      = Inr (32000, sampleWritten)"
    by code_simp
  have c3: "maxEval sampleDecls <s 32000
      \<and> \<not> (maxEval sampleDecls + 1 <s 32000 \<and> halfmoveClock (board sampleEngine) = 0
          \<and> 32000 \<le>s maxDtz sampleDecls)"
    by code_simp
  have gt1: "maxEval sampleDecls + 1 <s 32000"
    by code_simp
  have fits: "scoreFits sampleDecls (sint (32000 :: cint))
      \<and> scoreFits sampleDecls (sint (32000 :: cint) + sint (ply sampleEngine))"
    by code_simp
  have v: "sint (32000 :: cint) + sint (ply sampleEngine) = 32003"
    by code_simp
  have b: "unat (key ?slot AND tt_mask (tt sampleEngine)) = 0"
    by code_simp
  from e c3 ret obtain i w where i: "i < bucketLen"
    and w: "sampleWritten = sampleEngine\<lparr>tt := (tt sampleEngine)\<lparr>slots :=
        (slots (tt sampleEngine))[unat (key ?slot AND tt_mask (tt sampleEngine)) + i := w]\<rparr>\<rparr>"
      "isHardBound sampleDecls w = ((32767 :: cint) \<le>s 32000)"
      "isLowerBound sampleDecls w = ((32767 :: cint) \<le>s 32000)"
    and m: "maxEval sampleDecls + 1 <s 32000 \<longrightarrow>
        isWinLossScore sampleDecls w
        \<and> slot_score sampleDecls w = signed_take_bit (scoreBits sampleDecls - 1)
            (signed_take_bit (scoreBits sampleDecls - 1) 32000 + ply sampleEngine)
        \<and> (scoreFits sampleDecls (sint (32000 :: cint))
            \<and> scoreFits sampleDecls (sint (32000 :: cint) + sint (ply sampleEngine)) \<longrightarrow>
            sint (slot_score sampleDecls w) = sint (32000 :: cint) + sint (ply sampleEngine))"
    by blast
  from m gt1 have wl: "isWinLossScore sampleDecls w"
    and imp: "scoreFits sampleDecls (sint (32000 :: cint))
        \<and> scoreFits sampleDecls (sint (32000 :: cint) + sint (ply sampleEngine)) \<longrightarrow>
        sint (slot_score sampleDecls w) = sint (32000 :: cint) + sint (ply sampleEngine)"
    by blast+
  from imp fits have "sint (slot_score sampleDecls w)
      = sint (32000 :: cint) + sint (ply sampleEngine)"
    by (rule mp)
  then have "sint (slot_score sampleDecls w) = 32003"
    by (simp only: v)
  with wl i w refuse ret show ?thesis
    unfolding b by blast
qed

theorem ttWrite_mate_dtz_counterexample:
  "maxEval sampleDecls <s 30400 \<and> maxEval sampleDecls + 1 <s 30400
    \<and> halfmoveClock (board sampleZeroing) = 0 \<and> 30400 \<le>s maxDtz sampleDecls
    \<and> ttWrite sampleDecls sampleZeroing \<lparr>key = 4660, data = 27021597764253476\<rparr> 10 30400
        (- 32767) 32767 = Inr (30500, sampleZeroing)
    \<and> ttWrite sampleDecls sampleZeroing \<lparr>key = 4660, data = 27021597764253476\<rparr> 10 30400
        (- 32767) 32767 \<noteq> Inr (30400, sampleZeroing)"
  by code_simp


lemma wf_agedEngine: "wf_table agedEngine"
  by (simp add: wf_table_def agedEngine_def sampleEngine_def bucketLen_def)


section \<open>Properties of \<open>ttClearFast\<close>\<close>

text \<open>
  Claim C5, amended. When every slot of the table holds an entry written under the
  current \<open>baseHash\<close> for a board hash of \<open>W\<close>, and the board's hash xor the old and the
  new \<open>baseHash\<close> is not in \<open>W\<close>, then after \<open>ttClearFast\<close> a \<open>ttRead\<close> finds no
  matching slot and returns the empty slot with the new probe hash as \<open>key\<close> and
  \<open>data = 0\<close>.
\<close>

theorem ttRead_after_ttClearFast:
  fixes P :: decls and self :: engine and W :: "u64 set"
  defines "newBase \<equiv> NOT (xorshift64star P (NOT (baseHash (tt self))))"
  assumes wfT: "wf_table self"
    and written: "\<forall>s \<in> set (slots (tt self)).
        \<exists>k \<in> W. key s XOR data s = k XOR baseHash (tt self)"
    and fresh: "hash (board self) XOR baseHash (tt self) XOR newBase \<notin> W"
  shows "baseHash (tt (ttClearFast P self)) = newBase
    \<and> ttRead P (ttClearFast P self)
      = Inr \<lparr>key = hash (board self) XOR newBase, data = 0\<rparr>"
proof -
  let ?c = "ttClearFast P self"
  let ?probe = "hash (board self) XOR newBase"
  let ?bucket = "?probe AND tt_mask (tt ?c)"
  let ?S = "\<lambda>k. slots (tt ?c) ! (unat ?bucket + k)"
  have base: "baseHash (tt ?c) = newBase"
    by (simp add: ttClearFast_def newBase_def)
  have same: "slots (tt ?c) = slots (tt self)" "tt_mask (tt ?c) = tt_mask (tt self)"
    "hash (board ?c) = hash (board self)"
    by (simp_all add: ttClearFast_def)
  from wfT have wfT': "wf_table ?c"
    by (simp add: wf_table_def same)
  have S: "\<And>k. k < bucketLen \<Longrightarrow> slotAt ?c (?bucket + of_nat k) = Inr (?S k)"
    by (rule slotAt_bucket [OF wfT'])
  have miss: "\<forall>k<bucketLen. key (?S k) XOR data (?S k) \<noteq> ?probe"
  proof (intro allI impI notI)
    fix k
    assume k: "k < bucketLen" and eq: "key (?S k) XOR data (?S k) = ?probe"
    from bucket_index(2) [OF wfT' k, of ?probe] have "?S k \<in> set (slots (tt self))"
      by (simp add: same)
    with written obtain h where h: "h \<in> W" "key (?S k) XOR data (?S k) = h XOR baseHash (tt self)"
      by blast
    from h(2) eq have "h XOR baseHash (tt self) = hash (board self) XOR newBase"
      by simp
    then have "(h XOR baseHash (tt self)) XOR baseHash (tt self)
        = (hash (board self) XOR newBase) XOR baseHash (tt self)"
      by (rule arg_cong)
    moreover have "(h XOR baseHash (tt self)) XOR baseHash (tt self) = h"
      by (simp add: xor.assoc)
    moreover have "(hash (board self) XOR newBase) XOR baseHash (tt self)
        = hash (board self) XOR baseHash (tt self) XOR newBase"
      by (simp add: xor.assoc xor.commute xor.left_commute)
    ultimately have "h = hash (board self) XOR baseHash (tt self) XOR newBase"
      by simp
    with h(1) fresh show False
      by simp
  qed
  from read_miss [of ?c ?bucket ?S ?probe 0 P, OF S miss]
  have "ttRead P ?c = Inr \<lparr>key = ?probe, data = 0\<rparr>"
    by (simp add: ttRead_def Let_def base same)
  with base show ?thesis
    by simp
qed


theorem ttRead_after_ttClearFast_witness:
  "baseHash (tt (ttClearFast sampleDecls sampleWritten)) = 491796270583644159
    \<and> ttRead sampleDecls sampleWritten = Inr \<lparr>key = 4660, data = 36034337526807808\<rparr>
    \<and> ttRead sampleDecls (ttClearFast sampleDecls sampleWritten)
      = Inr \<lparr>key = 491796270583639499, data = 0\<rparr>"
proof -
  have wf: "wf_table sampleWritten"
    by (simp add: wf_table_def sampleWritten_def sampleEngine_def bucketLen_def)
  have written: "\<forall>s \<in> set (slots (tt sampleWritten)).
      \<exists>k \<in> {4660, 0}. key s XOR data s = k XOR baseHash (tt sampleWritten)"
    by code_simp
  have fresh: "hash (board sampleWritten) XOR baseHash (tt sampleWritten)
      XOR NOT (xorshift64star sampleDecls (NOT (baseHash (tt sampleWritten)))) \<notin> {4660, 0}"
    by code_simp
  have nb: "NOT (xorshift64star sampleDecls (NOT (baseHash (tt sampleWritten))))
      = 491796270583644159"
    by code_simp
  have pr: "hash (board sampleWritten) XOR 491796270583644159 = (491796270583639499 :: u64)"
    by code_simp
  have before: "ttRead sampleDecls sampleWritten
      = Inr \<lparr>key = 4660, data = 36034337526807808\<rparr>"
    by code_simp
  from ttRead_after_ttClearFast [OF wf written fresh] before show ?thesis
    by (simp only: nb pr)
qed

theorem ttRead_after_ttClearFast_counterexample:
  "ttWrite sampleDecls (sampleEngine\<lparr>tt := (tt sampleEngine)\<lparr>baseHash := - 1\<rparr>\<rparr>)
        \<lparr>key = 4660 XOR (- 1), data = 0\<rparr> 10 100 0 200 = Inr (100, stuckEngine)
    \<and> ttClearFast sampleDecls stuckEngine = stuckEngine
    \<and> ttRead sampleDecls (ttClearFast sampleDecls stuckEngine)
      = Inr \<lparr>key = 18446744073709546955, data = 5540507811940\<rparr>
    \<and> ttWrite sampleDecls
        (sampleWritten\<lparr>board := (board sampleWritten)\<lparr>hash := 491796270583639499\<rparr>\<rparr>)
        \<lparr>key = 491796270583639499, data = 0\<rparr> 10 100 0 200
      = Inr (100, collidingEngine\<lparr>board := (board collidingEngine)\<lparr>hash := 491796270583639499\<rparr>\<rparr>)
    \<and> ttRead sampleDecls collidingEngine = Inr \<lparr>key = 4660, data = 36034337526807808\<rparr>
    \<and> ttRead sampleDecls (ttClearFast sampleDecls collidingEngine)
      = Inr \<lparr>key = 491796270583639499, data = 5540507811940\<rparr>"
  by code_simp

section \<open>\<open>ttSetSize\<close>\<close>


lemma wf_alloc_freshEngine: "wf_alloc freshEngine"
  by (simp add: wf_alloc_def freshEngine_def sampleEngine_def)

lemma wf_alloc_agedEngine: "wf_alloc agedEngine"
proof -
  have "length (slots (tt agedEngine)) = 2 ^ 2"
    by (simp add: agedEngine_def sampleEngine_def)
  then have "\<exists>m\<in>{2..31}. length (slots (tt agedEngine)) = 2 ^ m"
    by (rule bexI [of _ 2]) simp
  moreover have "slots (tt agedEngine) \<noteq> []"
    and "unat (tt_size (tt agedEngine)) = length (slots (tt agedEngine)) * unat sizeofSlot"
    by (simp_all add: agedEngine_def sampleEngine_def sizeofSlot_def)
  ultimately show ?thesis
    using wf_agedEngine by (simp only: wf_alloc_def if_False simp_thms)
qed







text \<open>
  Claim C8. When \<open>ttSetSize\<close> returns with a table larger than before, the new table
  has \<open>mask + bucketLen\<close> slots and every index \<open>i\<close> of it holds the slot that the old
  table held at \<open>i\<close> modulo the old slot count, whatever number of allocations it took;
  at the first allocation, when there is no old table, every slot is zero.
\<close>

theorem ttSetSize_grow_replicates:
  fixes P :: decls and A :: allocator and self self' :: engine and bytes :: u64
  assumes wf: "wf_alloc self"
    and res: "ttSetSize P A self bytes = Some (Inr self')"
    and grows: "tt_size (tt self) < tt_size (tt self')"
  shows "length (slots (tt self')) = unat (tt_mask (tt self')) + bucketLen
      \<and> (\<forall>i<length (slots (tt self')). slots (tt self') ! i =
          (if slots (tt self) = [] then \<lparr>key = 0, data = 0\<rparr>
           else slots (tt self) ! (i mod length (slots (tt self)))))"
proof -
  from newSize_result [of bytes] obtain k
    where loop: "ttSetSize_newSize (max bytes (of_nat bucketLen * sizeofSlot))
        (of_nat bucketLen * sizeofSlot) 0 = Some (push_bit (k + 6) 1, push_bit 2 (mask k))"
      and k: "k + 6 < 64"
    by blast
  let ?ns = "push_bit (k + 6) 1 :: u64" and ?nm = "push_bit 2 (mask k) :: u64"
  have bound: "sz \<le> ?ns" and "\<exists>k'\<le>k. sz = push_bit (k' + 6) 1 \<and> mk = push_bit 2 (mask k')
      \<and> r = realloc A old sz"
    if "ttSetSize_retry A old (realloc A old ?ns) ?ns ?nm = (r, sz, mk)" for old r sz mk
  proof -
    from retry_result [OF refl refl k refl that]
    show *: "\<exists>k'\<le>k. sz = push_bit (k' + 6) 1 \<and> mk = push_bit 2 (mask k') \<and> r = realloc A old sz" .
    then obtain k' where k': "k' \<le> k" "sz = push_bit (k' + 6) 1"
      by blast
    with k have "k' + 6 < 64"
      by simp
    from k' have "(2 :: nat) ^ k' \<le> 2 ^ k"
      by (intro power_increasing) simp_all
    with unat_size_word [OF k] unat_size_word [OF \<open>k' + 6 < 64\<close>] k'(2)
    show "sz \<le> ?ns"
      by (simp add: word_le_nat_alt)
  qed
  note retry = this
  have noshrink: "\<not> ?ns < tt_size (tt self)"
  proof
    assume less: "?ns < tt_size (tt self)"
    show False
    proof (cases "ttSetSize_shrink P ?nm 0 self")
      case (Inl e)
      with res loop less show False
        by (simp add: ttSetSize_def)
    next
      case (Inr self1)
      obtain r sz mk where ret: "ttSetSize_retry A (slots (tt self1))
          (realloc A (slots (tt self1)) ?ns) ?ns ?nm = (r, sz, mk)"
        by (metis prod_cases3)
      from res loop less Inr ret have "tt_size (tt self') = sz"
        by (auto simp add: ttSetSize_def split: option.splits sum.splits if_splits)
      with retry(1) [OF ret] less grows show False
        by simp
    qed
  qed
  obtain r sz mk where ret: "ttSetSize_retry A (slots (tt self))
      (realloc A (slots (tt self)) ?ns) ?ns ?nm = (r, sz, mk)"
    by (metis prod_cases3)
  from retry(2) [OF ret] obtain k' where k': "k' \<le> k" and sz: "sz = push_bit (k' + 6) 1"
    and mk: "mk = push_bit 2 (mask k')" and r: "r = realloc A (slots (tt self)) sz"
    by blast
  from k k' have k'6: "k' + 6 < 64"
    by simp
  from noshrink have shr: "(if ?ns < tt_size (tt self) then ttSetSize_shrink P ?nm 0 self
      else Inr self) = Inr self"
    by simp
  obtain ns where rs: "r = Some ns"
  proof (cases r)
    case None
    with ret have "ttSetSize_retry A (slots (tt self)) (realloc A (slots (tt self)) ?ns) ?ns ?nm
        = (None, sz, mk)"
      by simp
    from ttSetSize_abort [OF loop shr this] res show ?thesis
      by simp
  next
    case (Some ns)
    then show ?thesis
      by (rule that)
  qed
  with r [symmetric] have re: "realloc A (slots (tt self)) sz = Some ns"
    by simp
  from ret rs have ret': "ttSetSize_retry A (slots (tt self))
      (realloc A (slots (tt self)) ?ns) ?ns ?nm = (Some ns, sz, mk)"
    by simp
  from realloc_Some(1) [OF re] new_count(2) [OF k'6] have len: "length ns = 2 ^ (k' + 2)"
    by (simp add: sz)
  from after_alloc [OF wf k'6 len realloc_Some(2) [OF re], of sz] obtain ns1 ns2
    where mem: "(if slots (tt self) = [] then memsetBucket ns else Inr ns) = Inr ns1"
      and exp: "(if tt_size (tt self) < sz then ttSetSize_expand self mk 0 ns1
          else Inr ns1) = Inr ns2"
      and len2: "length ns2 = 2 ^ (k' + 2)"
      and rep: "slots (tt self) \<noteq> [] \<and> tt_size (tt self) < sz \<longrightarrow>
          (\<forall>j<2 ^ (k' + 2). ns2 ! j = slots (tt self) ! (j mod length (slots (tt self))))"
      and zero: "slots (tt self) = [] \<and> tt_size (tt self) < sz \<longrightarrow>
          (\<forall>j<2 ^ (k' + 2). ns2 ! j = \<lparr>key = 0, data = 0\<rparr>)"
    unfolding mk by blast
  from ttSetSize_stages [OF loop shr ret' mem exp] res
  have self': "self' = self\<lparr>tt := (tt self)\<lparr>slots := ns2, tt_size := sz, tt_mask := mk\<rparr>\<rparr>"
    by simp
  with grows have "tt_size (tt self) < sz"
    by simp
  with rep zero have "\<forall>j<2 ^ (k' + 2). ns2 ! j =
      (if slots (tt self) = [] then \<lparr>key = 0, data = 0\<rparr>
       else slots (tt self) ! (j mod length (slots (tt self))))"
    by simp
  moreover from new_count(1) [OF k'6] have "2 ^ (k' + 2) = unat mk + bucketLen"
    by (simp add: mk)
  ultimately show ?thesis
    using len2 by (simp add: self')
qed

theorem ttSetSize_grow_replicates_witness:
  "ttSetSize sampleDecls plentyAlloc agedEngine 128
      = Some (Inr (agedEngine\<lparr>tt := (tt agedEngine)\<lparr>slots :=
          slots (tt agedEngine) @ slots (tt agedEngine), tt_size := 128, tt_mask := 4\<rparr>\<rparr>))
    \<and> length (slots (tt agedEngine) @ slots (tt agedEngine)) = unat (4 :: u64) + bucketLen
    \<and> (slots (tt agedEngine) @ slots (tt agedEngine)) ! 6
      = slots (tt agedEngine) ! (6 mod length (slots (tt agedEngine)))
    \<and> ttSetSize sampleDecls plentyAlloc freshEngine 128
      = Some (Inr (freshEngine\<lparr>tt := (tt freshEngine)\<lparr>slots :=
          replicate 8 \<lparr>key = 0, data = 0\<rparr>, tt_size := 128, tt_mask := 4\<rparr>\<rparr>))"
proof -
  let ?new = "agedEngine\<lparr>tt := (tt agedEngine)\<lparr>slots :=
          slots (tt agedEngine) @ slots (tt agedEngine), tt_size := 128, tt_mask := 4\<rparr>\<rparr>"
  have run: "ttSetSize sampleDecls plentyAlloc agedEngine 128 = Some (Inr ?new)"
    by code_simp
  have fresh: "ttSetSize sampleDecls plentyAlloc freshEngine 128
      = Some (Inr (freshEngine\<lparr>tt := (tt freshEngine)\<lparr>slots :=
          replicate 8 \<lparr>key = 0, data = 0\<rparr>, tt_size := 128, tt_mask := 4\<rparr>\<rparr>))"
    by code_simp
  have grows: "tt_size (tt agedEngine) < tt_size (tt ?new)"
    by (simp add: agedEngine_def sampleEngine_def)
  have ne: "slots (tt agedEngine) \<noteq> []" and six: "6 < length (slots (tt ?new))"
    by (simp_all add: agedEngine_def sampleEngine_def)
  from ttSetSize_grow_replicates [OF wf_alloc_agedEngine run grows] ne six
  have "length (slots (tt ?new)) = unat (tt_mask (tt ?new)) + bucketLen"
    and "slots (tt ?new) ! 6 = slots (tt agedEngine) ! (6 mod length (slots (tt agedEngine)))"
    by auto
  with run fresh show ?thesis
    by simp
qed
end
